theory Spec2Isabelle
  imports Main
begin

section \<open>Python string primitives used by the parser\<close>

text \<open>
  A Python \<open>str\<close> is modelled as a \<open>string\<close>, one \<open>char\<close> per code point; the model
  therefore covers the texts whose code points are below 256 (ASCII and Latin-1).
  The character classes below are the ones of CPython on that range:
  \<open>str.isspace\<close> and the regular expression class \<open>\s\<close> share one whitespace table,
  \<open>str.isupper\<close> and \<open>str.islower\<close> follow the Unicode properties Uppercase and
  Lowercase, and the classes \<open>[a-z]\<close>, \<open>[A-Z]\<close> and \<open>[0-9]\<close> of the token pattern
  are plain ASCII ranges.
\<close>

definition py_isspace_char :: "char \<Rightarrow> bool" where
  "py_isspace_char c =
     (let n = (of_char c :: nat)
      in (9 \<le> n \<and> n \<le> 13) \<or> (28 \<le> n \<and> n \<le> 32) \<or> n = 133 \<or> n = 160)"

definition py_isupper_char :: "char \<Rightarrow> bool" where
  "py_isupper_char c =
     (let n = (of_char c :: nat)
      in (65 \<le> n \<and> n \<le> 90) \<or> (192 \<le> n \<and> n \<le> 214) \<or> (216 \<le> n \<and> n \<le> 222))"

definition py_islower_char :: "char \<Rightarrow> bool" where
  "py_islower_char c =
     (let n = (of_char c :: nat)
      in (97 \<le> n \<and> n \<le> 122) \<or> n = 170 \<or> n = 181 \<or> n = 186
         \<or> (223 \<le> n \<and> n \<le> 246) \<or> (248 \<le> n \<and> n \<le> 255))"

text \<open>\<open>t.isspace()\<close>: at least one character, and all of them whitespace.\<close>

definition py_isspace :: "string \<Rightarrow> bool" where
  "py_isspace t = (t \<noteq> [] \<and> list_all py_isspace_char t)"

text \<open>
  \<open>t.islower()\<close>: no cased character of \<open>t\<close> is uppercase (Latin-1 has no titlecase
  character) and at least one character is lowercase.
\<close>

definition py_islower :: "string \<Rightarrow> bool" where
  "py_islower t = (list_all (\<lambda>c. \<not> py_isupper_char c) t \<and> list_ex py_islower_char t)"

text \<open>\<open>text.replace(c, r)\<close> for a pattern \<open>c\<close> of one character.\<close>

definition str_replace :: "char \<Rightarrow> string \<Rightarrow> string \<Rightarrow> string" where
  "str_replace c r text = concat (map (\<lambda>x. if x = c then r else [x]) text)"

text \<open>\<open>str(n)\<close> for a non-negative integer: its decimal digits.\<close>

definition digit_char :: "nat \<Rightarrow> char" where
  "digit_char d = char_of (48 + d)"

fun str_of_nat :: "nat \<Rightarrow> string" where
  "str_of_nat n = (if n < 10 then [digit_char n] else str_of_nat (n div 10) @ [digit_char (n mod 10)])"

declare str_of_nat.simps [simp del]

section \<open>The tokenizer\<close>

text \<open>
  The token pattern is
  \<^verbatim>\<open>\s*(\(|\)|[a-z][a-z0-9]*|[A-Z][A-Z0-9]*|~|&|\||->|\.|,)\s*\<close>.
  Its alternatives begin with different characters, so the first character decides
  which one applies, and no backtracking ever changes a match: a greedy \<open>\s*\<close> that
  gave a whitespace character back would leave the group in front of a whitespace
  character, where no alternative matches.
\<close>

definition az_lower :: "char \<Rightarrow> bool" where
  "az_lower c = (let n = (of_char c :: nat) in 97 \<le> n \<and> n \<le> 122)"

definition az_upper :: "char \<Rightarrow> bool" where
  "az_upper c = (let n = (of_char c :: nat) in 65 \<le> n \<and> n \<le> 90)"

definition digit09 :: "char \<Rightarrow> bool" where
  "digit09 c = (let n = (of_char c :: nat) in 48 \<le> n \<and> n \<le> 57)"

text \<open>
  \<open>match_group s\<close> matches the capture group at the head of \<open>s\<close>: the text of the
  group and the rest of \<open>s\<close>, or \<open>None\<close>.
\<close>

fun match_group :: "string \<Rightarrow> (string \<times> string) option" where
  "match_group [] = None"
| "match_group (c # cs) =
     (if c = CHR ''('' then Some ([c], cs)
      else if c = CHR '')'' then Some ([c], cs)
      else if az_lower c then
        Some (c # takeWhile (\<lambda>x. az_lower x \<or> digit09 x) cs,
              dropWhile (\<lambda>x. az_lower x \<or> digit09 x) cs)
      else if az_upper c then
        Some (c # takeWhile (\<lambda>x. az_upper x \<or> digit09 x) cs,
              dropWhile (\<lambda>x. az_upper x \<or> digit09 x) cs)
      else if c = CHR ''~'' then Some ([c], cs)
      else if c = CHR ''&'' then Some ([c], cs)
      else if c = CHR ''|'' then Some ([c], cs)
      else if c = CHR ''-'' then
        (case cs of [] \<Rightarrow> None
         | d # ds \<Rightarrow> if d = CHR ''>'' then Some ([c, d], ds) else None)
      else if c = CHR ''.'' then Some ([c], cs)
      else if c = CHR '','' then Some ([c], cs)
      else None)"

text \<open>The whole pattern matched at the head of \<open>s\<close>: the group and what follows the match.\<close>

definition token_regex_match :: "string \<Rightarrow> (string \<times> string) option" where
  "token_regex_match s =
     (case match_group (dropWhile py_isspace_char s) of
        None \<Rightarrow> None
      | Some (g, rest) \<Rightarrow> Some (g, dropWhile py_isspace_char rest))"

lemma match_group_shorter: "match_group s = Some (g, rest) \<Longrightarrow> length rest < length s"
proof (cases s)
  case Nil
  assume "match_group s = Some (g, rest)"
  with Nil show ?thesis by simp
next
  case (Cons c cs)
  have dw: "\<And>P. length (dropWhile P cs) \<le> length cs"
    by (simp add: length_dropWhile_le)
  assume "match_group s = Some (g, rest)"
  with Cons show ?thesis
    using dw [of "\<lambda>x. az_lower x \<or> digit09 x"] dw [of "\<lambda>x. az_upper x \<or> digit09 x"]
    by (auto split: if_splits list.splits simp: less_Suc_eq_le)
qed

lemma token_regex_match_shorter:
  "token_regex_match s = Some (g, rest) \<Longrightarrow> length rest < length s"
proof -
  assume m: "token_regex_match s = Some (g, rest)"
  then obtain r where g: "match_group (dropWhile py_isspace_char s) = Some (g, r)"
    and rest: "rest = dropWhile py_isspace_char r"
    by (auto simp: token_regex_match_def split: option.splits)
  have "length rest \<le> length r"
    using rest by (simp add: length_dropWhile_le)
  also have "length r < length (dropWhile py_isspace_char s)"
    using g by (rule match_group_shorter)
  also have "\<dots> \<le> length s"
    by (simp add: length_dropWhile_le)
  finally show ?thesis .
qed

text \<open>
  \<open>re.split(token_regex, text)\<close> with its one capture group: the text in front of each
  match, then the group, and at the end the text after the last match. The search for
  the next match starts where the last one ended and moves right one character at a
  time; \<open>piece\<close> collects the characters passed over.
\<close>

function re_split_from :: "string \<Rightarrow> string \<Rightarrow> string list" where
  "re_split_from piece [] = [piece]"
| "re_split_from piece (c # cs) =
     (case token_regex_match (c # cs) of
        Some (g, rest) \<Rightarrow> piece # g # re_split_from [] rest
      | None \<Rightarrow> re_split_from (piece @ [c]) cs)"
  by pat_completeness auto
termination
proof (relation "measure (\<lambda>(piece, s). length s)")
  show "wf (measure (\<lambda>(piece, s). length s))" by simp
next
  fix piece :: string and c cs x2 g rest
  assume "token_regex_match (c # cs) = Some x2" and "(g, rest) = x2"
  then have "length rest < length (c # cs)"
    using token_regex_match_shorter [of "c # cs" g rest] by simp
  then show "(([], rest), piece, c # cs) \<in> measure (\<lambda>(piece, s). length s)"
    by simp
next
  fix piece :: string and c cs
  show "((piece @ [c], cs), piece, c # cs) \<in> measure (\<lambda>(piece, s). length s)"
    by simp
qed

definition re_split :: "string \<Rightarrow> string list" where
  "re_split text = re_split_from [] text"

text \<open>
  \<open>FOLParser._tokenize\<close>: the three replacements, the split, and the filter that keeps
  every piece that is neither empty nor all whitespace.
\<close>

definition tokenize :: "string \<Rightarrow> string list" where
  "tokenize text =
     (let text1 = str_replace (CHR ''('') '' ( '' text;
          text2 = str_replace (CHR '')'') '' ) '' text1;
          text3 = str_replace (CHR ''.'') '' . '' text2
      in filter (\<lambda>t. t \<noteq> [] \<and> \<not> py_isspace t) (re_split text3))"

section \<open>The abstract syntax tree\<close>

text \<open>
  The node classes of the source. Every field of a node holds an object of some
  \<open>Formula\<close> subclass: the terms of a \<open>Predicate\<close> and the variable of a quantifier are
  \<open>Formula\<close> nodes too, as in the source, where \<open>Variable\<close> and \<open>Constant\<close> extend
  \<open>Formula\<close>. The constructors check nothing, like the \<open>__init__\<close> methods.
\<close>

datatype Formula =
    Variable string
  | Constant string
  | Predicate string "Formula list"
  | Negation Formula
  | Conjunction Formula Formula
  | Disjunction Formula Formula
  | Implication Formula Formula
  | Forall Formula Formula
  | Exists Formula Formula

text \<open>\<open>__repr__\<close>, which \<open>str\<close> and the f-strings of the source use for every node.\<close>

fun join_strs :: "string \<Rightarrow> string list \<Rightarrow> string" where
  "join_strs sep [] = []"
| "join_strs sep [x] = x"
| "join_strs sep (x # y # ys) = x @ sep @ join_strs sep (y # ys)"

fun repr :: "Formula \<Rightarrow> string" where
  "repr (Variable name) = name"
| "repr (Constant name) = name"
| "repr (Predicate name terms) = name @ ''('' @ join_strs '', '' (map repr terms) @ '')''"
| "repr (Negation f) = ''~('' @ repr f @ '')''"
| "repr (Conjunction l r) = ''('' @ repr l @ '' & '' @ repr r @ '')''"
| "repr (Disjunction l r) = ''('' @ repr l @ '' | '' @ repr r @ '')''"
| "repr (Implication l r) = ''('' @ repr l @ '' -> '' @ repr r @ '')''"
| "repr (Forall v f) = ''forall '' @ repr v @ ''. ('' @ repr f @ '')''"
| "repr (Exists v f) = ''exists '' @ repr v @ ''. ('' @ repr f @ '')''"

section \<open>The parser\<close>

text \<open>
  \<open>ParseError\<close> is an exception class with no field of its own: the value it carries
  is its message. A parser object holds the token list, which never changes after
  \<open>__init__\<close>, and the cursor \<open>pos\<close>. Every method is modelled as a function of the
  tokens and the cursor that returns the outcome, \<open>Inl\<close> for a raised \<open>ParseError\<close>,
  together with the cursor it leaves behind.
\<close>

datatype ParseError = ParseError string

type_synonym 'a outcome = "(ParseError + 'a) \<times> nat"

definition peek :: "string list \<Rightarrow> nat \<Rightarrow> string option" where
  "peek tokens pos = (if pos < length tokens then Some (tokens ! pos) else None)"

text \<open>How an f-string prints a token that may be \<open>None\<close>, and a text between apostrophes.\<close>

definition fmt_token :: "string option \<Rightarrow> string" where
  "fmt_token token = (case token of None \<Rightarrow> ''None'' | Some t \<Rightarrow> t)"

definition quoted :: "string \<Rightarrow> string" where
  "quoted s = CHR 0x27 # s @ [CHR 0x27]"

text \<open>
  \<open>_consume(expected)\<close>. The test \<open>if expected and token != expected\<close> is skipped for
  \<open>None\<close> and for the empty string, which are both false in Python.
\<close>

definition consume :: "string option \<Rightarrow> string list \<Rightarrow> nat \<Rightarrow> string outcome" where
  "consume expected tokens pos =
     (let token = peek tokens pos
      in if expected \<noteq> None \<and> expected \<noteq> Some [] \<and> token \<noteq> expected then
           (Inl (ParseError (''Expected '' @ quoted (fmt_token expected) @ '' but found ''
                             @ quoted (fmt_token token) @ '' at position '' @ str_of_nat pos)),
            pos)
         else (case token of
                 None \<Rightarrow> (Inl (ParseError ''Unexpected end of input''), pos)
               | Some t \<Rightarrow> (Inr t, pos + 1)))"

definition parse_term :: "string list \<Rightarrow> nat \<Rightarrow> Formula outcome" where
  "parse_term tokens pos =
     (case peek tokens pos of
        None \<Rightarrow> (Inl (ParseError ''Unexpected end of input, expected a term.''), pos)
      | Some [] \<Rightarrow> (Inl (ParseError ''Unexpected end of input, expected a term.''), pos)
      | Some (c # cs) \<Rightarrow>
          if py_islower_char c then
            (case consume None tokens pos of
               (Inl e, p) \<Rightarrow> (Inl e, p)
             | (Inr _, p) \<Rightarrow> (Inr (Variable (c # cs)), p))
          else if py_isupper_char c then
            (case consume None tokens pos of
               (Inl e, p) \<Rightarrow> (Inl e, p)
             | (Inr _, p) \<Rightarrow> (Inr (Constant (c # cs)), p))
          else (Inl (ParseError (''Invalid term: '' @ c # cs)), pos))"

text \<open>
  The \<open>while True\<close> loop of \<open>parse_predicate\<close>: \<open>terms\<close> is the list built so far. Each
  round parses one term and then either leaves the loop in front of a \<open>)\<close> or consumes
  a comma.
\<close>

function parse_terms_loop :: "string list \<Rightarrow> nat \<Rightarrow> Formula list \<Rightarrow> (Formula list) outcome" where
  "parse_terms_loop tokens pos terms =
     (case parse_term tokens pos of
        (Inl e, p) \<Rightarrow> (Inl e, p)
      | (Inr t, p) \<Rightarrow>
          if peek tokens p = Some '')'' then (Inr (terms @ [t]), p)
          else (case consume (Some '','') tokens p of
                  (Inl e, p') \<Rightarrow> (Inl e, p')
                | (Inr _, p') \<Rightarrow> parse_terms_loop tokens p' (terms @ [t])))"
  by pat_completeness auto

text \<open>The loop ends: every round moves the cursor two tokens to the right.\<close>

lemma parse_terms_loop_total: "All parse_terms_loop_dom"
  by (relation "measure (\<lambda>(tokens, pos, terms). length tokens - pos)")
     (auto simp: parse_term_def consume_def peek_def Let_def
           split: option.splits list.splits if_splits)

termination parse_terms_loop
  using parse_terms_loop_total by blast

declare parse_terms_loop.simps [simp del]

definition parse_predicate :: "string list \<Rightarrow> nat \<Rightarrow> Formula outcome" where
  "parse_predicate tokens pos =
     (case consume None tokens pos of
        (Inl e, p) \<Rightarrow> (Inl e, p)
      | (Inr name, p1) \<Rightarrow>
     (case consume (Some ''('') tokens p1 of
        (Inl e, p) \<Rightarrow> (Inl e, p)
      | (Inr _, p2) \<Rightarrow>
     (case (if peek tokens p2 \<noteq> Some '')'' then parse_terms_loop tokens p2 []
            else (Inr [], p2)) of
        (Inl e, p) \<Rightarrow> (Inl e, p)
      | (Inr terms, p3) \<Rightarrow>
     (case consume (Some '')'') tokens p3 of
        (Inl e, p) \<Rightarrow> (Inl e, p)
      | (Inr _, p4) \<Rightarrow> (Inr (Predicate name terms), p4)))))"

text \<open>
  \<open>parse_formula\<close> and \<open>parse_quantifier\<close> call each other. In the binary form the
  operator is looked at only after the right formula and the closing parenthesis have
  been read, as in the source.
\<close>

function parse_formula :: "string list \<Rightarrow> nat \<Rightarrow> Formula outcome"
  and parse_quantifier :: "string list \<Rightarrow> nat \<Rightarrow> Formula outcome" where
  "parse_formula tokens pos =
     (let token = peek tokens pos
      in if token = Some ''('' then
           (case consume (Some ''('') tokens pos of
              (Inl e, p) \<Rightarrow> (Inl e, p)
            | (Inr _, p1) \<Rightarrow>
           (case parse_formula tokens p1 of
              (Inl e, p) \<Rightarrow> (Inl e, p)
            | (Inr left, p2) \<Rightarrow>
           (case consume None tokens p2 of
              (Inl e, p) \<Rightarrow> (Inl e, p)
            | (Inr op, p3) \<Rightarrow>
           (case parse_formula tokens p3 of
              (Inl e, p) \<Rightarrow> (Inl e, p)
            | (Inr right, p4) \<Rightarrow>
           (case consume (Some '')'') tokens p4 of
              (Inl e, p) \<Rightarrow> (Inl e, p)
            | (Inr _, p5) \<Rightarrow>
                if op = ''&'' then (Inr (Conjunction left right), p5)
                else if op = ''|'' then (Inr (Disjunction left right), p5)
                else if op = ''->'' then (Inr (Implication left right), p5)
                else (Inl (ParseError (''Unknown binary operator: '' @ op)), p5))))))
         else if token = Some ''~'' then
           (case consume (Some ''~'') tokens pos of
              (Inl e, p) \<Rightarrow> (Inl e, p)
            | (Inr _, p1) \<Rightarrow>
           (case parse_formula tokens p1 of
              (Inl e, p) \<Rightarrow> (Inl e, p)
            | (Inr f, p2) \<Rightarrow> (Inr (Negation f), p2)))
         else if token = Some ''forall'' \<or> token = Some ''exists'' then
           parse_quantifier tokens pos
         else if (case token of None \<Rightarrow> False | Some t \<Rightarrow> t \<noteq> [] \<and> py_isupper_char (hd t)) then
           parse_predicate tokens pos
         else (Inl (ParseError (''Unexpected token for a formula: '' @ fmt_token token)), pos))"
| "parse_quantifier tokens pos =
     (case consume None tokens pos of
        (Inl e, p) \<Rightarrow> (Inl e, p)
      | (Inr quantifier_type, p1) \<Rightarrow>
     (case consume None tokens p1 of
        (Inl e, p) \<Rightarrow> (Inl e, p)
      | (Inr var_name, p2) \<Rightarrow>
          if \<not> py_islower var_name then
            (Inl (ParseError (''Expected a lowercase variable after quantifier, but got ''
                              @ quoted var_name)), p2)
          else
     (case consume (Some ''.'') tokens p2 of
        (Inl e, p) \<Rightarrow> (Inl e, p)
      | (Inr _, p3) \<Rightarrow>
     (case parse_formula tokens p3 of
        (Inl e, p) \<Rightarrow> (Inl e, p)
      | (Inr f, p4) \<Rightarrow>
          if quantifier_type = ''forall'' then (Inr (Forall (Variable var_name) f), p4)
          else (Inr (Exists (Variable var_name) f), p4)))))"
  by pat_completeness auto

subsection \<open>Cursor movement and termination\<close>

lemma consume_Inr:
  "consume e ts pos = (Inr t, p) \<Longrightarrow> p = Suc pos \<and> pos < length ts \<and> t = ts ! pos"
  by (auto simp: consume_def peek_def Let_def split: if_splits option.splits)

lemma consume_Inl: "consume e ts pos = (Inl x, p) \<Longrightarrow> p = pos"
  by (auto simp: consume_def peek_def Let_def split: if_splits option.splits)

lemma parse_term_Inr:
  "parse_term ts pos = (Inr t, p) \<Longrightarrow> p = Suc pos \<and> pos < length ts"
  by (auto simp: parse_term_def peek_def split: if_splits option.splits list.splits prod.splits sum.splits dest: consume_Inr)

lemma parse_term_Inl: "parse_term ts pos = (Inl x, p) \<Longrightarrow> p = pos"
  by (auto simp: parse_term_def peek_def split: if_splits option.splits list.splits prod.splits sum.splits dest: consume_Inl)

lemma parse_terms_loop_pos:
  "parse_terms_loop ts pos acc = (r, p) \<Longrightarrow> pos \<le> p \<and> (pos \<le> length ts \<longrightarrow> p \<le> length ts)"
proof (induction ts pos acc rule: parse_terms_loop.induct)
  case (1 tokens pos terms)
  show ?case
  proof (cases "parse_term tokens pos")
    case (Pair a p1)
    show ?thesis
    proof (cases a)
      case (Inl e)
      with Pair 1 show ?thesis
        by (auto simp: parse_terms_loop.simps [of tokens pos] dest: parse_term_Inl)
    next
      case (Inr t)
      with Pair have p1: "p1 = Suc pos" "pos < length tokens"
        using parse_term_Inr by blast+
      show ?thesis
      proof (cases "peek tokens p1 = Some '')''")
        case True
        with Pair Inr 1 p1 show ?thesis
          by (auto simp: parse_terms_loop.simps [of tokens pos])
      next
        case False
        show ?thesis
        proof (cases "consume (Some '','') tokens p1")
          case (Pair b p2)
          note c = this
          show ?thesis
          proof (cases b)
            case (Inl e)
            with c \<open>parse_term tokens pos = (a, p1)\<close> Inr False 1 p1 show ?thesis
              by (auto simp: parse_terms_loop.simps [of tokens pos] dest: consume_Inl)
          next
            case (Inr u)
            with c have p2: "p2 = Suc p1" "p1 < length tokens"
              using consume_Inr by blast+
            have "parse_terms_loop tokens p2 (terms @ [t]) = (r, p)"
              using 1(2) c Inr \<open>parse_term tokens pos = (a, p1)\<close> \<open>a = Inr t\<close> False
              by (simp add: parse_terms_loop.simps [of tokens pos])
            from 1(1) [OF _ _ False _ _ this] c Inr \<open>parse_term tokens pos = (a, p1)\<close> \<open>a = Inr t\<close>
            have "p2 \<le> p \<and> (p2 \<le> length tokens \<longrightarrow> p \<le> length tokens)" by simp
            with p1 p2 show ?thesis by simp
          qed
        qed
      qed
    qed
  qed
qed

lemma parse_predicate_pos:
  "parse_predicate ts pos = (r, p) \<Longrightarrow> pos \<le> p \<and> (pos \<le> length ts \<longrightarrow> p \<le> length ts)"
  by (fastforce simp: parse_predicate_def split: prod.splits sum.splits if_splits
      dest!: consume_Inr consume_Inl parse_terms_loop_pos)

lemma consume_match:
  "peek ts pos = Some e \<Longrightarrow> consume (Some e) ts pos = (Inr e, Suc pos)"
  by (simp add: consume_def)

lemma peek_Some: "peek ts pos = Some t \<Longrightarrow> pos < length ts \<and> t = ts ! pos"
  by (auto simp: peek_def split: if_splits)

lemma parse_formula_quantifier_pos_dom:
  "parse_formula_parse_quantifier_dom (Inl (ts, pos)) \<Longrightarrow>
     parse_formula ts pos = (r, p) \<Longrightarrow> pos \<le> p \<and> (pos \<le> length ts \<longrightarrow> p \<le> length ts)"
  "parse_formula_parse_quantifier_dom (Inr (ts, pos)) \<Longrightarrow>
     parse_quantifier ts pos = (r, p) \<Longrightarrow> pos \<le> p \<and> (pos \<le> length ts \<longrightarrow> p \<le> length ts)"
proof (induction ts pos and ts pos arbitrary: r p and r p rule: parse_formula_parse_quantifier.pinduct)
  case (1 tokens pos)
  note eq = parse_formula.psimps [OF 1(1)]
  consider (paren) "peek tokens pos = Some ''(''"
    | (neg) "peek tokens pos \<noteq> Some ''(''" "peek tokens pos = Some ''~''"
    | (quant) "peek tokens pos \<noteq> Some ''(''" "peek tokens pos \<noteq> Some ''~''"
        "peek tokens pos = Some ''forall'' \<or> peek tokens pos = Some ''exists''"
    | (other) "peek tokens pos \<noteq> Some ''(''" "peek tokens pos \<noteq> Some ''~''"
        "\<not> (peek tokens pos = Some ''forall'' \<or> peek tokens pos = Some ''exists'')"
    by blast
  then show ?case
  proof cases
    case paren
    have c1: "consume (Some ''('') tokens pos = (Inr ''('', Suc pos)"
      using paren by (rule consume_match)
    have lt: "pos < length tokens" using paren peek_Some by blast
    obtain a p2 where l: "parse_formula tokens (Suc pos) = (a, p2)" by force
    have b2: "Suc pos \<le> p2 \<and> p2 \<le> length tokens"
      using 1(2) [OF refl paren c1 [symmetric] refl l] lt by simp
    show ?thesis
    proof (cases a)
      case (Inl e)
      then show ?thesis using 1(6) b2 by (simp add: eq paren c1 l)
    next
      case (Inr left)
      obtain b p3 where c2: "consume None tokens p2 = (b, p3)" by force
      show ?thesis
      proof (cases b)
        case (Inl e)
        then show ?thesis using 1(6) b2 consume_Inl [of None tokens p2 e p3]
          by (simp add: eq paren c1 l Inr c2)
      next
        case op: (Inr op)
        have p3: "p3 = Suc p2" "p2 < length tokens"
          using consume_Inr [of None tokens p2 op p3] c2 op by simp_all
        obtain d p4 where rt: "parse_formula tokens p3 = (d, p4)" by force
        have b4: "p3 \<le> p4 \<and> p4 \<le> length tokens"
          using 1(3) [OF refl paren c1 [symmetric] refl l [symmetric] Inr _ op rt] c2 p3
          by simp
        show ?thesis
        proof (cases d)
          case (Inl e)
          then show ?thesis using 1(6) b2 b4 p3 rt by (simp add: eq paren c1 l Inr c2 op)
        next
          case right: (Inr right)
          obtain g p5 where c3: "consume (Some '')'') tokens p4 = (g, p5)" by force
          have "p5 = p4 \<or> (p5 = Suc p4 \<and> p4 < length tokens)"
            using c3 consume_Inl [of "Some '')''" tokens p4 _ p5]
              consume_Inr [of "Some '')''" tokens p4 _ p5] by (cases g) auto
          then show ?thesis using 1(6) b2 b4 p3 rt
            by (auto simp: eq paren c1 l Inr c2 op right c3 split: sum.splits if_splits)
        qed
      qed
    qed
  next
    case neg
    have c1: "consume (Some ''~'') tokens pos = (Inr ''~'', Suc pos)"
      using neg(2) by (rule consume_match)
    have lt: "pos < length tokens" using neg(2) peek_Some by blast
    obtain a p2 where l: "parse_formula tokens (Suc pos) = (a, p2)" by force
    have b2: "Suc pos \<le> p2 \<and> p2 \<le> length tokens"
      using 1(4) [OF refl neg c1 [symmetric] refl l] lt by simp
    then show ?thesis using 1(6) by (auto simp: eq neg c1 l split: sum.splits)
  next
    case quant
    then show ?thesis using 1(5) [OF refl quant] 1(6) by (simp add: eq Let_def)
  next
    case other
    then show ?thesis using 1(6)
      by (auto simp: eq Let_def split: if_splits dest: parse_predicate_pos)
  qed
next
  case (2 tokens pos)
  note eq = parse_quantifier.psimps [OF 2(1)]
  obtain a p1 where c1: "consume None tokens pos = (a, p1)" by force
  show ?case
  proof (cases a)
    case (Inl e)
    then show ?thesis using 2(3) consume_Inl [of None tokens pos e p1] c1
      by (simp add: eq)
  next
    case qt: (Inr qt)
    have p1: "p1 = Suc pos" "pos < length tokens"
      using consume_Inr [of None tokens pos qt p1] c1 qt by simp_all
    have c1': "consume None tokens pos = (Inr qt, Suc pos)"
      using c1 qt p1 by simp
    obtain b p2 where c2: "consume None tokens (Suc pos) = (b, p2)" by force
    show ?thesis
    proof (cases b)
      case (Inl e)
      then show ?thesis using 2(3) consume_Inl [of None tokens "Suc pos" e p2] c2 p1
        by (simp add: eq c1')
    next
      case v: (Inr v)
      have p2: "p2 = Suc (Suc pos)" "Suc pos < length tokens"
        using consume_Inr [of None tokens "Suc pos" v p2] c2 v by simp_all
      have c2': "consume None tokens (Suc pos) = (Inr v, Suc (Suc pos))"
        using c2 v p2 by simp
      show ?thesis
      proof (cases "py_islower v")
        case False
        then show ?thesis using 2(3) p1 p2 by (simp add: eq c1' c2')
      next
        case True
        obtain d p3 where c3: "consume (Some ''.'') tokens (Suc (Suc pos)) = (d, p3)" by force
        show ?thesis
        proof (cases d)
          case (Inl e)
          then show ?thesis
            using 2(3) p1 p2 True consume_Inl [of "Some ''.''" tokens "Suc (Suc pos)" e p3] c3
            by (simp add: eq c1' c2')
        next
          case dot: (Inr dot)
          have p3: "p3 = Suc (Suc (Suc pos))" "Suc (Suc pos) < length tokens"
            using consume_Inr [of "Some ''.''" tokens "Suc (Suc pos)" dot p3] c3 dot by simp_all
          have c3': "consume (Some ''.'') tokens (Suc (Suc pos)) = (Inr dot, Suc (Suc (Suc pos)))"
            using c3 dot p3 by simp
          obtain f p4 where body: "parse_formula tokens (Suc (Suc (Suc pos))) = (f, p4)" by force
          have "Suc (Suc (Suc pos)) \<le> p4 \<and> p4 \<le> length tokens"
            using 2(2) [OF c1' [symmetric] refl c2' [symmetric] refl _ c3' [symmetric] refl body] True p3
            by simp
          then show ?thesis using 2(3) True
            by (auto simp: eq c1' c2' c3' body split: sum.splits if_splits)
        qed
      qed
    qed
  qed
qed

text \<open>
  Every call of \<open>parse_formula\<close> and \<open>parse_quantifier\<close> is in the domain of the
  recursion: the number of tokens right of the cursor decreases from each call of
  \<open>parse_formula\<close> to the next, and \<open>parse_quantifier\<close> is entered with the cursor of its
  caller and moves it before it calls back.
\<close>

lemma parse_formula_quantifier_total: "All parse_formula_parse_quantifier_dom"
proof (relation "measure (\<lambda>x. case x of Inl (tokens, pos) \<Rightarrow> 2 * (length tokens - pos) + 1
                                      | Inr (tokens, pos) \<Rightarrow> 2 * (length tokens - pos))")
  show "wf (measure (\<lambda>x. case x of Inl (tokens, pos) \<Rightarrow> 2 * (length tokens - pos) + 1
                                      | Inr (tokens, pos) \<Rightarrow> 2 * (length tokens - pos)))"
    by simp
qed (auto dest!: consume_Inr [OF sym] parse_formula_quantifier_pos_dom(1) [OF _ sym])

termination parse_formula
  using parse_formula_quantifier_total by blast

declare parse_formula.simps [simp del] parse_quantifier.simps [simp del]

text \<open>
  \<open>FOLParser.parse\<close>: one formula, then the test that no token is left. \<open>parse_text\<close> is
  \<open>FOLParser(text).parse()\<close>: the constructor tokenizes the text and sets the cursor to 0.
\<close>

definition parse :: "string list \<Rightarrow> nat \<Rightarrow> Formula outcome" where
  "parse tokens pos =
     (case parse_formula tokens pos of
        (Inl e, p) \<Rightarrow> (Inl e, p)
      | (Inr formula, p) \<Rightarrow>
          if p < length tokens then
            (Inl (ParseError (''Unexpected token '' @ quoted (fmt_token (peek tokens p))
                              @ '' at end of expression'')), p)
          else (Inr formula, p))"

definition parse_text :: "string \<Rightarrow> Formula outcome" where
  "parse_text text = parse (tokenize text) 0"

section \<open>Predicates and functions of the properties\<close>

text \<open>
  Everything below is used to state and prove properties of the tokenizer and the
  parser defined above; nothing of it is part of the source.
\<close>

subsection \<open>Equations and successful runs of the productions\<close>

text \<open>The last test of \<open>parse_formula\<close>: a token that is there, not empty, and begins uppercase.\<close>

definition starts_upper :: "string option \<Rightarrow> bool" where
  "starts_upper token = (case token of None \<Rightarrow> False | Some t \<Rightarrow> t \<noteq> [] \<and> py_isupper_char (hd t))"

subsection \<open>Where variables and constants occur\<close>

text \<open>
  \<open>formula_shape f\<close>: \<open>f\<close> and every node in a formula position below it (the operand of
  a negation, both sides of a binary connective, the body of a quantifier) is a
  predicate, a negation, a binary connective or a quantifier; the variable of a
  quantifier is a \<open>Variable\<close> node, and the terms of a predicate are \<open>Variable\<close> and
  \<open>Constant\<close> nodes.
\<close>

fun is_term_node :: "Formula \<Rightarrow> bool" where
  "is_term_node (Variable name) = True"
| "is_term_node (Constant name) = True"
| "is_term_node f = False"

fun is_variable_node :: "Formula \<Rightarrow> bool" where
  "is_variable_node (Variable name) = True"
| "is_variable_node f = False"

fun formula_shape :: "Formula \<Rightarrow> bool" where
  "formula_shape (Variable name) = False"
| "formula_shape (Constant name) = False"
| "formula_shape (Predicate name terms) = list_all is_term_node terms"
| "formula_shape (Negation f) = formula_shape f"
| "formula_shape (Conjunction l r) = (formula_shape l \<and> formula_shape r)"
| "formula_shape (Disjunction l r) = (formula_shape l \<and> formula_shape r)"
| "formula_shape (Implication l r) = (formula_shape l \<and> formula_shape r)"
| "formula_shape (Forall v f) = (is_variable_node v \<and> formula_shape f)"
| "formula_shape (Exists v f) = (is_variable_node v \<and> formula_shape f)"

text \<open>
  The tokens a term list is read from, and the node that \<open>parse_term\<close> builds from one
  token.
\<close>

fun term_tokens :: "Formula list \<Rightarrow> string list" where
  "term_tokens [] = []"
| "term_tokens [t] = [repr t]"
| "term_tokens (t # u # us) = repr t # '','' # term_tokens (u # us)"

definition term_from :: "string \<Rightarrow> Formula \<Rightarrow> bool" where
  "term_from tok t =
     (tok \<noteq> [] \<and> ((py_islower_char (hd tok) \<and> t = Variable tok) \<or>
                  (\<not> py_islower_char (hd tok) \<and> py_isupper_char (hd tok) \<and> t = Constant tok)))"

subsection \<open>What a parse error carries\<close>

text \<open>
  The message of the mismatch error of \<open>_consume(expected)\<close>, the only one that prints a
  position, and the eight forms a message can take for a token list and the cursor
  \<open>p\<close> at which the error left the parser.
\<close>

definition expected_message :: "string \<Rightarrow> string option \<Rightarrow> nat \<Rightarrow> string" where
  "expected_message e token pos =
     ''Expected '' @ quoted e @ '' but found '' @ quoted (fmt_token token)
       @ '' at position '' @ str_of_nat pos"

text \<open>
  \<open>bad_operator_at tokens q p\<close>: the token at index \<open>q\<close> was consumed as the operator of a
  binary form, that is, right after the left formula of a form opened by a parenthesis;
  it is none of the three operators; the right formula has been parsed from the next
  token on, and the cursor \<open>p\<close> is right after the closing parenthesis of the form.
\<close>

definition bad_operator_at :: "string list \<Rightarrow> nat \<Rightarrow> nat \<Rightarrow> bool" where
  "bad_operator_at tokens q p =
     ((\<exists>pos < q. peek tokens pos = Some ''(''
          \<and> \<not> isl (fst (parse_formula tokens (Suc pos)))
          \<and> snd (parse_formula tokens (Suc pos)) = q)
      \<and> q < length tokens
      \<and> tokens ! q \<noteq> ''&'' \<and> tokens ! q \<noteq> ''|'' \<and> tokens ! q \<noteq> ''->''
      \<and> \<not> isl (fst (parse_formula tokens (Suc q)))
      \<and> Suc (snd (parse_formula tokens (Suc q))) = p
      \<and> peek tokens (p - 1) = Some '')'')"

definition parse_error_form :: "string list \<Rightarrow> string \<Rightarrow> nat \<Rightarrow> bool" where
  "parse_error_form tokens m p =
     (p \<le> length tokens \<and>
      ((\<exists>e \<in> {''('', '')'', ''.'', '',''}.
           peek tokens p \<noteq> Some e \<and> m = expected_message e (peek tokens p) p)
       \<or> (p = length tokens \<and> m = ''Unexpected end of input'')
       \<or> (p = length tokens \<and> m = ''Unexpected end of input, expected a term.'')
       \<or> (p < length tokens \<and> m = ''Invalid term: '' @ tokens ! p)
       \<or> m = ''Unexpected token for a formula: '' @ fmt_token (peek tokens p)
       \<or> (0 < p \<and> \<not> py_islower (tokens ! (p - 1)) \<and>
            m = ''Expected a lowercase variable after quantifier, but got ''
                  @ quoted (tokens ! (p - 1)))
       \<or> (\<exists>q < p. bad_operator_at tokens q p \<and> m = ''Unknown binary operator: '' @ tokens ! q)
       \<or> (p < length tokens \<and>
            m = ''Unexpected token '' @ quoted (tokens ! p) @ '' at end of expression'')))"

subsection \<open>What the tokenizer returns\<close>

text \<open>
  The shapes of the pattern: the characters with which a token can begin, the two
  identifier shapes, the tokens the capture group can match, and a piece of text in
  which no token begins.
\<close>

definition starts_token :: "char \<Rightarrow> bool" where
  "starts_token c =
     (c = CHR ''('' \<or> c = CHR '')'' \<or> az_lower c \<or> az_upper c \<or> c = CHR ''~'' \<or> c = CHR ''&''
      \<or> c = CHR ''|'' \<or> c = CHR ''.'' \<or> c = CHR '','')"

definition lower_ident :: "string \<Rightarrow> bool" where
  "lower_ident t = (t \<noteq> [] \<and> az_lower (hd t) \<and> list_all (\<lambda>c. az_lower c \<or> digit09 c) (tl t))"

definition upper_ident :: "string \<Rightarrow> bool" where
  "upper_ident t = (t \<noteq> [] \<and> az_upper (hd t) \<and> list_all (\<lambda>c. az_upper c \<or> digit09 c) (tl t))"

definition legal_token :: "string \<Rightarrow> bool" where
  "legal_token t =
     (t = ''('' \<or> t = '')'' \<or> t = ''.'' \<or> t = '','' \<or> t = ''~'' \<or> t = ''&'' \<or> t = ''|''
      \<or> t = ''->'' \<or> lower_ident t \<or> upper_ident t)"

definition unmatched_piece :: "string \<Rightarrow> bool" where
  "unmatched_piece t = list_all (\<lambda>c. \<not> starts_token c) t"

subsection \<open>Letters in tokens\<close>

text \<open>
  A character is \<open>ascii_cased\<close> when it is an ASCII letter or no letter at all for
  \<open>str.islower\<close> and \<open>str.isupper\<close>. In a text of such characters, a token that begins
  with a letter is an identifier.
\<close>

definition ascii_cased :: "char \<Rightarrow> bool" where
  "ascii_cased c = ((py_islower_char c \<longrightarrow> az_lower c) \<and> (py_isupper_char c \<longrightarrow> az_upper c))"

definition punct_tokens :: "string list" where
  "punct_tokens = [''('', '')'', ''.'', '','', ''~'', ''&'', ''|'', ''->'']"

subsection \<open>The names of variables and constants\<close>

text \<open>
  \<open>names_match f\<close>: every \<open>Variable\<close> name in \<open>f\<close> has the shape \<open>[a-z][a-z0-9]*\<close> and every
  \<open>Constant\<close> name the shape \<open>[A-Z][A-Z0-9]*\<close>.
\<close>

fun names_match :: "Formula \<Rightarrow> bool" where
  "names_match (Variable name) = lower_ident name"
| "names_match (Constant name) = upper_ident name"
| "names_match (Predicate name terms) = list_all names_match terms"
| "names_match (Negation f) = names_match f"
| "names_match (Conjunction l r) = (names_match l \<and> names_match r)"
| "names_match (Disjunction l r) = (names_match l \<and> names_match r)"
| "names_match (Implication l r) = (names_match l \<and> names_match r)"
| "names_match (Forall v f) = (names_match v \<and> names_match f)"
| "names_match (Exists v f) = (names_match v \<and> names_match f)"

definition cased_tokens_ident :: "string list \<Rightarrow> bool" where
  "cased_tokens_ident ts =
     (\<forall>t \<in> set ts. (py_islower_char (hd t) \<longrightarrow> lower_ident t)
                   \<and> (py_isupper_char (hd t) \<longrightarrow> upper_ident t)
                   \<and> (py_islower t \<longrightarrow> lower_ident t))"

subsection \<open>Tokenizing a rendered formula\<close>

text \<open>
  \<open>lex\<close> is the split and the filter of \<open>_tokenize\<close>, \<open>spaced\<close> its three replacements. A
  piece between two matches is \<open>closed\<close>: no token begins in it, it holds no arrow and it
  does not end in whitespace. A name is \<open>stable\<close> when it is an identifier or such a
  piece: followed by a separator it is tokenized as itself.
\<close>

definition lex :: "string \<Rightarrow> string list" where
  "lex x = filter (\<lambda>t. t \<noteq> [] \<and> \<not> py_isspace t) (re_split_from [] x)"

definition spaced :: "string \<Rightarrow> string" where
  "spaced s = str_replace (CHR ''.'') '' . '' (str_replace (CHR '')'') '' ) ''
                (str_replace (CHR ''('') '' ( '' s))"

fun arrow_free :: "string \<Rightarrow> bool" where
  "arrow_free (c # d # cs) = (\<not> (c = CHR ''-'' \<and> d = CHR ''>'') \<and> arrow_free (d # cs))"
| "arrow_free cs = True"

definition closed_piece :: "string \<Rightarrow> bool" where
  "closed_piece t =
     (unmatched_piece t \<and> arrow_free t \<and> (t = [] \<or> \<not> py_isspace_char (last t)))"

definition cont_ok :: "string \<Rightarrow> bool" where
  "cont_ok k = (k = [] \<or> token_regex_match k \<noteq> None)"

definition sep_char :: "char \<Rightarrow> bool" where
  "sep_char c = (c = CHR '' '' \<or> c = CHR '','')"

definition stable_name :: "string \<Rightarrow> bool" where
  "stable_name t =
     (t \<noteq> [] \<and> \<not> py_isspace_char (hd t) \<and> (lower_ident t \<or> upper_ident t \<or> closed_piece t))"

subsection \<open>The token list\<close>

text \<open>
  \<open>no_match_in p k\<close>: in the text \<open>p\<close> followed by \<open>k\<close>, the token pattern matches at no
  position of \<open>p\<close>. \<open>split_of s out\<close>: the list \<open>out\<close> cuts the text \<open>s\<close> at the matches of
  the pattern, found from left to right: it consists of the stretch in front of the
  first match, in which no match begins, the token of that match, and the same for the
  text after the match, down to a last stretch without a match. \<open>separated\<close>: of two
  neighbours in a token list, one is of a legal shape. \<open>alternates\<close>: a list of stretches
  in which no token begins and of legal tokens, in turn.
\<close>

definition no_match_in :: "string \<Rightarrow> string \<Rightarrow> bool" where
  "no_match_in p k = (\<forall>i < length p. token_regex_match (drop i p @ k) = None)"

fun split_of :: "string \<Rightarrow> string list \<Rightarrow> bool" where
  "split_of s [] = False"
| "split_of s [p] = (s = p \<and> no_match_in p [])"
| "split_of s (p # g # out) =
     (take (length p) s = p \<and> no_match_in p (drop (length p) s) \<and>
      (case token_regex_match (drop (length p) s) of
         None \<Rightarrow> False
       | Some (g', rest) \<Rightarrow> g' = g \<and> split_of rest out))"

fun separated :: "string list \<Rightarrow> bool" where
  "separated (a # b # ts) = ((legal_token a \<or> legal_token b) \<and> separated (b # ts))"
| "separated ts = True"

fun alternates :: "string list \<Rightarrow> bool" where
  "alternates [] = False"
| "alternates [p] = (unmatched_piece p \<and> arrow_free p)"
| "alternates (p # g # out) =
     (unmatched_piece p \<and> arrow_free p \<and> legal_token g \<and> alternates out)"

subsection \<open>Parsing a rendering again\<close>

text \<open>
  \<open>connectives_only f\<close>: \<open>f\<close> is built from predicates with the three binary connectives,
  without negation and quantifier. \<open>tokens_of f\<close> are the tokens from which the parser
  builds \<open>f\<close>. A formula is \<open>stable\<close> when it is of that kind and all its names are.
\<close>

fun connectives_only :: "Formula \<Rightarrow> bool" where
  "connectives_only (Predicate name terms) = True"
| "connectives_only (Conjunction l r) = (connectives_only l \<and> connectives_only r)"
| "connectives_only (Disjunction l r) = (connectives_only l \<and> connectives_only r)"
| "connectives_only (Implication l r) = (connectives_only l \<and> connectives_only r)"
| "connectives_only f = False"

fun tokens_of :: "Formula \<Rightarrow> string list" where
  "tokens_of (Variable name) = [name]"
| "tokens_of (Constant name) = [name]"
| "tokens_of (Predicate name terms) = name # ''('' # term_tokens terms @ ['')'']"
| "tokens_of (Negation f) = ''~'' # tokens_of f"
| "tokens_of (Conjunction l r) = ''('' # tokens_of l @ ''&'' # tokens_of r @ ['')'']"
| "tokens_of (Disjunction l r) = ''('' # tokens_of l @ ''|'' # tokens_of r @ ['')'']"
| "tokens_of (Implication l r) = ''('' # tokens_of l @ ''->'' # tokens_of r @ ['')'']"
| "tokens_of (Forall v f) = ''forall'' # tokens_of v @ ''.'' # tokens_of f"
| "tokens_of (Exists v f) = ''exists'' # tokens_of v @ ''.'' # tokens_of f"

fun stable_term :: "Formula \<Rightarrow> bool" where
  "stable_term (Variable name) = stable_name name"
| "stable_term (Constant name) = stable_name name"
| "stable_term f = False"

fun stable_formula :: "Formula \<Rightarrow> bool" where
  "stable_formula (Predicate name terms) = (stable_name name \<and> list_all stable_term terms)"
| "stable_formula (Conjunction l r) = (stable_formula l \<and> stable_formula r)"
| "stable_formula (Disjunction l r) = (stable_formula l \<and> stable_formula r)"
| "stable_formula (Implication l r) = (stable_formula l \<and> stable_formula r)"
| "stable_formula f = False"

section \<open>Two worked inputs\<close>

text \<open>
  C6. The text \<open>forall x. (P(x) -> Q(x, A))\<close> parses: the result is the \<open>Forall\<close> node
  over the variable \<open>x\<close> whose body is the implication from \<open>P(x)\<close> to \<open>Q(x, A)\<close>, with the
  arguments of \<open>Q\<close> in the order written, and all sixteen tokens are consumed.
\<close>

theorem parse_forall_implication:
  "parse_text ''forall x. (P(x) -> Q(x, A))'' =
     (Inr (Forall (Variable ''x'')
             (Implication (Predicate ''P'' [Variable ''x''])
                          (Predicate ''Q'' [Variable ''x'', Constant ''A'']))), 16)"
  by code_simp

text \<open>
  C7. The text \<open>forall x P(x)\<close>, where the dot is missing, fails in \<open>_consume('.')\<close>: the
  message names the expected dot and the token \<open>P\<close> found in its place, and the
  position it prints, which is also the cursor left behind, is 2, the index of \<open>P\<close> in
  the token list, right after the bound variable \<open>x\<close> at index 1.
\<close>

theorem parse_missing_dot:
  "parse_text ''forall x P(x)'' =
     (Inl (ParseError ''Expected '.' but found 'P' at position 2''), 2)
   \<and> tokenize ''forall x P(x)'' ! 1 = ''x''
   \<and> tokenize ''forall x P(x)'' ! 2 = ''P''"
  by code_simp

section \<open>Equations and successful runs of the productions\<close>

lemma parse_formula_pos:
  "parse_formula ts pos = (r, p) \<Longrightarrow> pos \<le> p \<and> (pos \<le> length ts \<longrightarrow> p \<le> length ts)"
  using parse_formula_quantifier_pos_dom(1) parse_formula_quantifier_total by blast

lemma parse_quantifier_pos:
  "parse_quantifier ts pos = (r, p) \<Longrightarrow> pos \<le> p \<and> (pos \<le> length ts \<longrightarrow> p \<le> length ts)"
  using parse_formula_quantifier_pos_dom(2) parse_formula_quantifier_total by blast

lemma parse_formula_paren:
  "peek ts pos = Some ''('' \<Longrightarrow>
   parse_formula ts pos =
     (case parse_formula ts (Suc pos) of
        (Inl e, p) \<Rightarrow> (Inl e, p)
      | (Inr left, p2) \<Rightarrow>
     (case consume None ts p2 of
        (Inl e, p) \<Rightarrow> (Inl e, p)
      | (Inr op, p3) \<Rightarrow>
     (case parse_formula ts p3 of
        (Inl e, p) \<Rightarrow> (Inl e, p)
      | (Inr right, p4) \<Rightarrow>
     (case consume (Some '')'') ts p4 of
        (Inl e, p) \<Rightarrow> (Inl e, p)
      | (Inr _, p5) \<Rightarrow>
          if op = ''&'' then (Inr (Conjunction left right), p5)
          else if op = ''|'' then (Inr (Disjunction left right), p5)
          else if op = ''->'' then (Inr (Implication left right), p5)
          else (Inl (ParseError (''Unknown binary operator: '' @ op)), p5)))))"
  by (simp add: parse_formula.simps [of ts pos] consume_match)

lemma parse_formula_neg:
  "peek ts pos = Some ''~'' \<Longrightarrow>
   parse_formula ts pos =
     (case parse_formula ts (Suc pos) of
        (Inl e, p) \<Rightarrow> (Inl e, p)
      | (Inr f, p2) \<Rightarrow> (Inr (Negation f), p2))"
  by (simp add: parse_formula.simps [of ts pos] consume_match)

lemma parse_formula_quant:
  "peek ts pos = Some ''forall'' \<or> peek ts pos = Some ''exists'' \<Longrightarrow>
   parse_formula ts pos = parse_quantifier ts pos"
  by (auto simp add: parse_formula.simps [of ts pos])

lemma parse_formula_other:
  "peek ts pos \<noteq> Some ''('' \<Longrightarrow> peek ts pos \<noteq> Some ''~'' \<Longrightarrow>
   peek ts pos \<noteq> Some ''forall'' \<Longrightarrow> peek ts pos \<noteq> Some ''exists'' \<Longrightarrow>
   parse_formula ts pos =
     (if starts_upper (peek ts pos) then parse_predicate ts pos
      else (Inl (ParseError (''Unexpected token for a formula: '' @ fmt_token (peek ts pos))), pos))"
  by (simp add: parse_formula.simps [of ts pos] starts_upper_def)

lemma parse_term_success:
  "parse_term ts pos = (Inr t, p) \<Longrightarrow>
     p = Suc pos \<and> pos < length ts \<and> ts ! pos \<noteq> [] \<and>
     ((py_islower_char (hd (ts ! pos)) \<and> t = Variable (ts ! pos)) \<or>
      (\<not> py_islower_char (hd (ts ! pos)) \<and> py_isupper_char (hd (ts ! pos))
         \<and> t = Constant (ts ! pos)))"
  by (auto simp: parse_term_def peek_def consume_def
      split: if_splits option.splits list.splits prod.splits sum.splits)

lemma parse_terms_loop_unfold:
  "parse_terms_loop ts pos acc = (Inr terms, p) \<Longrightarrow>
     \<exists>t. parse_term ts pos = (Inr t, Suc pos) \<and>
       ((peek ts (Suc pos) = Some '')'' \<and> terms = acc @ [t] \<and> p = Suc pos) \<or>
        (peek ts (Suc pos) = Some '','' \<and>
         parse_terms_loop ts (Suc (Suc pos)) (acc @ [t]) = (Inr terms, p)))"
proof -
  assume a: "parse_terms_loop ts pos acc = (Inr terms, p)"
  obtain r p1 where t: "parse_term ts pos = (r, p1)" by force
  show ?thesis
  proof (cases r)
    case (Inl e)
    with a t show ?thesis by (simp add: parse_terms_loop.simps [of ts pos])
  next
    case (Inr u)
    with t have p1: "p1 = Suc pos" using parse_term_Inr by blast
    show ?thesis
    proof (cases "peek ts (Suc pos) = Some '')''")
      case True
      with a t Inr p1 show ?thesis by (auto simp: parse_terms_loop.simps [of ts pos])
    next
      case False
      obtain b p2 where c: "consume (Some '','') ts (Suc pos) = (b, p2)" by force
      show ?thesis
      proof (cases b)
        case (Inl e)
        with a t Inr p1 False c show ?thesis
          by (simp add: parse_terms_loop.simps [of ts pos])
      next
        case cm: (Inr cm)
        have "p2 = Suc (Suc pos)" "peek ts (Suc pos) = Some '',''"
          using c cm by (auto simp: consume_def Let_def split: if_splits option.splits)
        with a t Inr p1 False c cm show ?thesis
          by (simp add: parse_terms_loop.simps [of ts pos])
      qed
    qed
  qed
qed

lemma parse_predicate_success:
  "parse_predicate ts pos = (Inr f, p) \<Longrightarrow>
     pos < length ts \<and> peek ts (Suc pos) = Some ''('' \<and>
     ((peek ts (Suc (Suc pos)) = Some '')'' \<and> f = Predicate (ts ! pos) [] \<and> p = Suc (Suc (Suc pos))) \<or>
      (peek ts (Suc (Suc pos)) \<noteq> Some '')'' \<and>
       (\<exists>terms p3. parse_terms_loop ts (Suc (Suc pos)) [] = (Inr terms, p3) \<and>
          peek ts p3 = Some '')'' \<and> f = Predicate (ts ! pos) terms \<and> p = Suc p3)))"
proof -
  assume a: "parse_predicate ts pos = (Inr f, p)"
  obtain b p1 where c1: "consume None ts pos = (b, p1)" by force
  show ?thesis
  proof (cases b)
    case (Inl e)
    with a c1 show ?thesis by (simp add: parse_predicate_def)
  next
    case name: (Inr name)
    have n: "p1 = Suc pos" "pos < length ts" "name = ts ! pos"
      using consume_Inr [of None ts pos name p1] c1 name by simp_all
    have c1': "consume None ts pos = (Inr (ts ! pos), Suc pos)"
      using c1 name n by simp
    obtain d p2 where c2: "consume (Some ''('') ts (Suc pos) = (d, p2)" by force
    show ?thesis
    proof (cases d)
      case (Inl e)
      with a c1' c2 show ?thesis by (simp add: parse_predicate_def)
    next
      case lp: (Inr lp)
      have l: "p2 = Suc (Suc pos)" "peek ts (Suc pos) = Some ''(''"
        using c2 lp by (auto simp: consume_def Let_def split: if_splits option.splits)
      have c2': "consume (Some ''('') ts (Suc pos) = (Inr lp, Suc (Suc pos))"
        using c2 lp l by simp
      show ?thesis
      proof (cases "peek ts (Suc (Suc pos)) = Some '')''")
        case True
        then show ?thesis using a c1' c2' n l
          by (auto simp: parse_predicate_def consume_match)
      next
        case False
        obtain g p3 where lo: "parse_terms_loop ts (Suc (Suc pos)) [] = (g, p3)" by force
        show ?thesis
        proof (cases g)
          case (Inl e)
          with a c1' c2' False lo show ?thesis by (simp add: parse_predicate_def)
        next
          case terms: (Inr terms)
          obtain h p4 where c3: "consume (Some '')'') ts p3 = (h, p4)" by force
          show ?thesis
          proof (cases h)
            case (Inl e)
            with a c1' c2' False lo terms c3 show ?thesis by (simp add: parse_predicate_def)
          next
            case rp: (Inr rp)
            have r: "p4 = Suc p3" "peek ts p3 = Some '')''"
              using c3 rp by (auto simp: consume_def Let_def split: if_splits option.splits)
            with a c1' c2' False lo terms c3 rp n l show ?thesis
              by (simp add: parse_predicate_def)
          qed
        qed
      qed
    qed
  qed
qed

lemma parse_formula_paren_success:
  assumes pk: "peek ts pos = Some ''(''" and ok: "parse_formula ts pos = (Inr f, p)"
  shows "\<exists>left p2 right p4.
           parse_formula ts (Suc pos) = (Inr left, p2) \<and> p2 < length ts \<and>
           parse_formula ts (Suc p2) = (Inr right, p4) \<and> peek ts p4 = Some '')'' \<and>
           p = Suc p4 \<and>
           ((ts ! p2 = ''&'' \<and> f = Conjunction left right) \<or>
            (ts ! p2 = ''|'' \<and> f = Disjunction left right) \<or>
            (ts ! p2 = ''->'' \<and> f = Implication left right))"
proof -
  note eq = parse_formula_paren [OF pk]
  obtain a p2 where l: "parse_formula ts (Suc pos) = (a, p2)" by force
  show ?thesis
  proof (cases a)
    case (Inl e)
    with ok l show ?thesis by (simp add: eq)
  next
    case left: (Inr left)
    obtain b p3 where c2: "consume None ts p2 = (b, p3)" by force
    show ?thesis
    proof (cases b)
      case (Inl e)
      with ok l left c2 show ?thesis by (simp add: eq)
    next
      case op: (Inr op)
      have o: "p3 = Suc p2" "p2 < length ts" "op = ts ! p2"
        using consume_Inr [of None ts p2 op p3] c2 op by simp_all
      have c2': "consume None ts p2 = (Inr (ts ! p2), Suc p2)"
        using c2 op o by simp
      obtain d p4 where rt: "parse_formula ts (Suc p2) = (d, p4)" by force
      show ?thesis
      proof (cases d)
        case (Inl e)
        with ok l left c2' rt show ?thesis by (simp add: eq)
      next
        case right: (Inr right)
        obtain g p5 where c3: "consume (Some '')'') ts p4 = (g, p5)" by force
        show ?thesis
        proof (cases g)
          case (Inl e)
          with ok l left c2' rt right c3 show ?thesis by (simp add: eq)
        next
          case rp: (Inr rp)
          have r: "p5 = Suc p4" "peek ts p4 = Some '')''"
            using c3 rp by (auto simp: consume_def Let_def split: if_splits option.splits)
          with ok l left c2' rt right c3 rp o show ?thesis
            by (auto simp: eq split: if_splits)
        qed
      qed
    qed
  qed
qed

lemma parse_formula_neg_success:
  assumes pk: "peek ts pos = Some ''~''" and ok: "parse_formula ts pos = (Inr f, p)"
  shows "\<exists>g. parse_formula ts (Suc pos) = (Inr g, p) \<and> f = Negation g"
  using ok by (auto simp: parse_formula_neg [OF pk] split: prod.splits sum.splits)

lemma parse_quantifier_success:
  assumes ok: "parse_quantifier ts pos = (Inr f, p)"
  shows "Suc (Suc pos) < length ts \<and> py_islower (ts ! Suc pos) \<and> ts ! Suc (Suc pos) = ''.'' \<and>
         (\<exists>g. parse_formula ts (Suc (Suc (Suc pos))) = (Inr g, p) \<and>
              ((ts ! pos = ''forall'' \<and> f = Forall (Variable (ts ! Suc pos)) g) \<or>
               (ts ! pos \<noteq> ''forall'' \<and> f = Exists (Variable (ts ! Suc pos)) g)))"
proof -
  note eq = parse_quantifier.simps [of ts pos]
  obtain a p1 where c1: "consume None ts pos = (a, p1)" by force
  show ?thesis
  proof (cases a)
    case (Inl e)
    with ok c1 show ?thesis by (simp add: eq)
  next
    case qt: (Inr qt)
    have q: "p1 = Suc pos" "pos < length ts" "qt = ts ! pos"
      using consume_Inr [of None ts pos qt p1] c1 qt by simp_all
    have c1': "consume None ts pos = (Inr (ts ! pos), Suc pos)"
      using c1 qt q by simp
    obtain b p2 where c2: "consume None ts (Suc pos) = (b, p2)" by force
    show ?thesis
    proof (cases b)
      case (Inl e)
      with ok c1' c2 show ?thesis by (simp add: eq)
    next
      case v: (Inr v)
      have vv: "p2 = Suc (Suc pos)" "Suc pos < length ts" "v = ts ! Suc pos"
        using consume_Inr [of None ts "Suc pos" v p2] c2 v by simp_all
      have c2': "consume None ts (Suc pos) = (Inr (ts ! Suc pos), Suc (Suc pos))"
        using c2 v vv by simp
      show ?thesis
      proof (cases "py_islower (ts ! Suc pos)")
        case False
        with ok c1' c2' show ?thesis by (simp add: eq)
      next
        case True
        obtain d p3 where c3: "consume (Some ''.'') ts (Suc (Suc pos)) = (d, p3)" by force
        show ?thesis
        proof (cases d)
          case (Inl e)
          with ok c1' c2' True c3 show ?thesis by (simp add: eq)
        next
          case dot: (Inr dot)
          have dd: "p3 = Suc (Suc (Suc pos))" "Suc (Suc pos) < length ts"
              "peek ts (Suc (Suc pos)) = Some ''.''"
            using c3 dot by (auto simp: consume_def peek_def Let_def split: if_splits option.splits)
          have c3': "consume (Some ''.'') ts (Suc (Suc pos)) = (Inr dot, Suc (Suc (Suc pos)))"
            using c3 dot dd by simp
          have dt: "ts ! Suc (Suc pos) = ''.''"
            using dd(3) peek_Some by fastforce
          show ?thesis
            using ok c1' c2' True c3' dd dt
            by (auto simp: eq split: prod.splits sum.splits if_splits)
        qed
      qed
    qed
  qed
qed

lemma parse_formula_success_induct [consumes 1, case_names paren neg quant pred]:
  assumes ok: "parse_formula ts pos = (Inr f, p)"
    and paren: "\<And>pos p2 p4 left right f.
        \<lbrakk>peek ts pos = Some ''(''; parse_formula ts (Suc pos) = (Inr left, p2); p2 < length ts;
         parse_formula ts (Suc p2) = (Inr right, p4); peek ts p4 = Some '')'';
         (ts ! p2 = ''&'' \<and> f = Conjunction left right) \<or>
         (ts ! p2 = ''|'' \<and> f = Disjunction left right) \<or>
         (ts ! p2 = ''->'' \<and> f = Implication left right);
         Q (Suc pos) left p2; Q (Suc p2) right p4\<rbrakk> \<Longrightarrow> Q pos f (Suc p4)"
    and neg: "\<And>pos g p.
        \<lbrakk>peek ts pos = Some ''~''; parse_formula ts (Suc pos) = (Inr g, p); Q (Suc pos) g p\<rbrakk>
        \<Longrightarrow> Q pos (Negation g) p"
    and quant: "\<And>pos g p f.
        \<lbrakk>peek ts pos = Some ''forall'' \<or> peek ts pos = Some ''exists'';
         Suc (Suc pos) < length ts; py_islower (ts ! Suc pos); ts ! Suc (Suc pos) = ''.'';
         parse_formula ts (Suc (Suc (Suc pos))) = (Inr g, p);
         (ts ! pos = ''forall'' \<and> f = Forall (Variable (ts ! Suc pos)) g) \<or>
         (ts ! pos = ''exists'' \<and> f = Exists (Variable (ts ! Suc pos)) g);
         Q (Suc (Suc (Suc pos))) g p\<rbrakk> \<Longrightarrow> Q pos f p"
    and pred: "\<And>pos f p.
        \<lbrakk>pos < length ts; ts ! pos \<noteq> []; py_isupper_char (hd (ts ! pos));
         parse_predicate ts pos = (Inr f, p)\<rbrakk> \<Longrightarrow> Q pos f p"
  shows "Q pos f p"
  using ok
proof (induction "length ts - pos" arbitrary: pos f p rule: less_induct)
  case less
  note ok = less.prems
  consider (paren) "peek ts pos = Some ''(''"
    | (neg) "peek ts pos = Some ''~''"
    | (quant) "peek ts pos = Some ''forall'' \<or> peek ts pos = Some ''exists''"
    | (other) "peek ts pos \<noteq> Some ''(''" "peek ts pos \<noteq> Some ''~''"
        "peek ts pos \<noteq> Some ''forall''" "peek ts pos \<noteq> Some ''exists''"
    by blast
  then show ?case
  proof cases
    case paren
    from parse_formula_paren_success [OF paren ok]
    obtain left p2 right p4 where
      l: "parse_formula ts (Suc pos) = (Inr left, p2)" and p2: "p2 < length ts" and
      r: "parse_formula ts (Suc p2) = (Inr right, p4)" and rp: "peek ts p4 = Some '')''" and
      p: "p = Suc p4" and
      f: "(ts ! p2 = ''&'' \<and> f = Conjunction left right) \<or>
          (ts ! p2 = ''|'' \<and> f = Disjunction left right) \<or>
          (ts ! p2 = ''->'' \<and> f = Implication left right)"
      by blast
    have lt: "pos < length ts" using paren peek_Some by blast
    have le: "Suc pos \<le> p2" using parse_formula_pos [OF l] by simp
    have q1: "Q (Suc pos) left p2"
      using less.hyps [of "Suc pos" left p2] l lt by simp
    have q2: "Q (Suc p2) right p4"
      using less.hyps [of "Suc p2" right p4] r lt le p2 by simp
    show ?thesis
      using assms(2) [OF paren l p2 r rp f q1 q2] p by simp
  next
    case neg
    from parse_formula_neg_success [OF neg ok]
    obtain g where g: "parse_formula ts (Suc pos) = (Inr g, p)" and f: "f = Negation g"
      by blast
    have lt: "pos < length ts" using neg peek_Some by blast
    have "Q (Suc pos) g p" using less.hyps [of "Suc pos" g p] g lt by simp
    then show ?thesis using assms(3) [OF neg g] f by simp
  next
    case quant
    have pq: "parse_quantifier ts pos = (Inr f, p)"
      using ok parse_formula_quant [OF quant] by simp
    from parse_quantifier_success [OF pq]
    obtain g where b: "Suc (Suc pos) < length ts" "py_islower (ts ! Suc pos)"
        "ts ! Suc (Suc pos) = ''.''"
      and g: "parse_formula ts (Suc (Suc (Suc pos))) = (Inr g, p)"
      and f: "(ts ! pos = ''forall'' \<and> f = Forall (Variable (ts ! Suc pos)) g) \<or>
              (ts ! pos \<noteq> ''forall'' \<and> f = Exists (Variable (ts ! Suc pos)) g)"
      by blast
    have f': "(ts ! pos = ''forall'' \<and> f = Forall (Variable (ts ! Suc pos)) g) \<or>
              (ts ! pos = ''exists'' \<and> f = Exists (Variable (ts ! Suc pos)) g)"
      using f quant peek_Some by fastforce
    have "Q (Suc (Suc (Suc pos))) g p"
      using less.hyps [of "Suc (Suc (Suc pos))" g p] g b by simp
    then show ?thesis using assms(4) [OF quant b g f'] by simp
  next
    case other
    note eq = parse_formula_other [OF other]
    have up: "starts_upper (peek ts pos)"
      using ok eq by (auto split: if_splits)
    then have pp: "parse_predicate ts pos = (Inr f, p)"
      using ok eq by simp
    from up have "pos < length ts" "ts ! pos \<noteq> []" "py_isupper_char (hd (ts ! pos))"
      by (auto simp: starts_upper_def peek_def split: option.splits if_splits)
    then show ?thesis using assms(5) pp by blast
  qed
qed

section \<open>Where variables and constants occur\<close>

lemma parse_terms_loop_success:
  "parse_terms_loop ts pos acc = (Inr terms, p) \<Longrightarrow>
     \<exists>new. terms = acc @ new \<and> new \<noteq> [] \<and>
       (\<forall>t\<in>set new. \<exists>tok\<in>set ts. term_from tok t) \<and>
       drop pos ts = term_tokens new @ drop p ts \<and> pos < p \<and> peek ts p = Some '')''"
proof (induction ts pos acc rule: parse_terms_loop.induct)
  case (1 tokens pos acc)
  from parse_terms_loop_unfold [OF 1(2)] obtain t where
    t: "parse_term tokens pos = (Inr t, Suc pos)" and
    alt: "(peek tokens (Suc pos) = Some '')'' \<and> terms = acc @ [t] \<and> p = Suc pos) \<or>
          (peek tokens (Suc pos) = Some '','' \<and>
           parse_terms_loop tokens (Suc (Suc pos)) (acc @ [t]) = (Inr terms, p))"
    by blast
  from parse_term_success [OF t] have
    lt: "pos < length tokens" and tf: "term_from (tokens ! pos) t"
    by (auto simp: term_from_def)
  have rp: "repr t = tokens ! pos"
    using tf by (auto simp: term_from_def)
  have d1: "drop pos tokens = repr t # drop (Suc pos) tokens"
    using lt rp by (simp add: Cons_nth_drop_Suc)
  from alt show ?case
  proof
    assume a: "peek tokens (Suc pos) = Some '')'' \<and> terms = acc @ [t] \<and> p = Suc pos"
    have "terms = acc @ [t] \<and> [t] \<noteq> [] \<and> (\<forall>u\<in>set [t]. \<exists>tok\<in>set tokens. term_from tok u) \<and>
          drop pos tokens = term_tokens [t] @ drop p tokens \<and> pos < p \<and> peek tokens p = Some '')''"
      using a d1 tf lt by auto
    then show ?thesis by blast
  next
    assume a: "peek tokens (Suc pos) = Some '','' \<and>
               parse_terms_loop tokens (Suc (Suc pos)) (acc @ [t]) = (Inr terms, p)"
    then have pk: "peek tokens (Suc pos) = Some '',''" and
      rec: "parse_terms_loop tokens (Suc (Suc pos)) (acc @ [t]) = (Inr terms, p)" by simp_all
    have np: "peek tokens (Suc pos) \<noteq> Some '')''" using pk by simp
    have cm: "consume (Some '','') tokens (Suc pos) = (Inr '','', Suc (Suc pos))"
      using pk by (rule consume_match)
    from 1(1) [OF t [symmetric] refl np cm [symmetric] refl rec]
    obtain new where n: "terms = (acc @ [t]) @ new" "new \<noteq> []"
      "\<forall>u\<in>set new. \<exists>tok\<in>set tokens. term_from tok u"
      "drop (Suc (Suc pos)) tokens = term_tokens new @ drop p tokens"
      "Suc (Suc pos) < p" "peek tokens p = Some '')''"
      by blast
    have d2: "drop (Suc pos) tokens = '','' # drop (Suc (Suc pos)) tokens"
      using pk peek_Some [OF pk] by (simp add: Cons_nth_drop_Suc)
    obtain u us where new: "new = u # us" using n(2) by (cases new) auto
    have "terms = acc @ (t # new) \<and> t # new \<noteq> [] \<and>
          (\<forall>u\<in>set (t # new). \<exists>tok\<in>set tokens. term_from tok u) \<and>
          drop pos tokens = term_tokens (t # new) @ drop p tokens \<and> pos < p \<and>
          peek tokens p = Some '')''"
      using n d1 d2 tf lt new by auto
    then show ?thesis by blast
  qed
qed

lemma term_from_is_term: "term_from tok t \<Longrightarrow> is_term_node t"
  by (auto simp: term_from_def)

lemma parse_predicate_shape:
  "parse_predicate ts pos = (Inr f, p) \<Longrightarrow> formula_shape f"
proof -
  assume a: "parse_predicate ts pos = (Inr f, p)"
  from parse_predicate_success [OF a] show ?thesis
  proof (elim conjE disjE exE)
    fix terms p3
    assume "parse_terms_loop ts (Suc (Suc pos)) [] = (Inr terms, p3)" "f = Predicate (ts ! pos) terms"
    then show ?thesis
      using parse_terms_loop_success [of ts "Suc (Suc pos)" "[]" terms p3] term_from_is_term
      by (auto simp: list_all_iff)
  qed simp
qed

text \<open>
  C10. In the formula returned by a successful parse, the root and every formula
  position hold a predicate, negation, conjunction, disjunction, implication or
  quantifier node, never a bare \<open>Variable\<close> or \<open>Constant\<close>; \<open>Variable\<close> nodes occur only
  as the bound variable of a quantifier or in the term list of a predicate, and
  \<open>Constant\<close> nodes only in the term list of a predicate.
\<close>

theorem parsed_formula_shape:
  "fst (parse_text text) = Inr f \<Longrightarrow> formula_shape f"
proof -
  assume a: "fst (parse_text text) = Inr f"
  then obtain p where "parse_formula (tokenize text) 0 = (Inr f, p)"
    by (auto simp: parse_text_def parse_def split: prod.splits sum.splits if_splits)
  then show ?thesis
    by (induction rule: parse_formula_success_induct) (auto dest: parse_predicate_shape)
qed

theorem parsed_formula_shape_witness:
  "fst (parse_text ''exists y. ~(P(y) & Q(y, A))'') =
     Inr (Exists (Variable ''y'')
            (Negation (Conjunction (Predicate ''P'' [Variable ''y''])
                                   (Predicate ''Q'' [Variable ''y'', Constant ''A'']))))
   \<and> formula_shape
       (Exists (Variable ''y'')
            (Negation (Conjunction (Predicate ''P'' [Variable ''y''])
                                   (Predicate ''Q'' [Variable ''y'', Constant ''A'']))))"
proof -
  have e: "fst (parse_text ''exists y. ~(P(y) & Q(y, A))'') =
     Inr (Exists (Variable ''y'')
            (Negation (Conjunction (Predicate ''P'' [Variable ''y''])
                                   (Predicate ''Q'' [Variable ''y'', Constant ''A'']))))"
    by code_simp
  from parsed_formula_shape [OF e] e show ?thesis by simp
qed

section \<open>Termination and the cursor\<close>

lemma consume_pos: "consume e ts pos = (r, p) \<Longrightarrow> pos \<le> p \<and> p \<le> Suc pos"
  by (auto simp: consume_def Let_def split: if_splits option.splits)

lemma parse_formula_advances:
  "parse_formula ts pos = (Inr f, p) \<Longrightarrow> pos < p \<and> p \<le> length ts"
proof (induction rule: parse_formula_success_induct)
  case (paren pos p2 p4 left right f)
  then show ?case using peek_Some [of ts p4] by auto
next
  case (neg pos g p)
  then show ?case by auto
next
  case (quant pos g p f)
  then show ?case by auto
next
  case (pred pos f p)
  from parse_predicate_success [OF pred(4)] show ?case
    using peek_Some [of ts "Suc (Suc pos)"] parse_terms_loop_success [of ts "Suc (Suc pos)" "[]"]
    by (auto dest!: peek_Some)
qed

lemma parse_quantifier_first:
  "pos < length ts \<Longrightarrow> parse_quantifier ts pos = (r, p) \<Longrightarrow> pos < p"
proof -
  assume lt: "pos < length ts" and a: "parse_quantifier ts pos = (r, p)"
  have c1: "consume None ts pos = (Inr (ts ! pos), Suc pos)"
    using lt by (simp add: consume_def peek_def)
  obtain b p2 where c2: "consume None ts (Suc pos) = (b, p2)" by force
  have p2: "Suc pos \<le> p2" using consume_pos [OF c2] by simp
  show ?thesis
  proof (cases b)
    case (Inl e)
    then show ?thesis using a c1 c2 p2 by (simp add: parse_quantifier.simps [of ts pos])
  next
    case v: (Inr v)
    obtain d p3 where c3: "consume (Some ''.'') ts p2 = (d, p3)" by force
    have p3: "p2 \<le> p3" using consume_pos [OF c3] by simp
    obtain g p4 where bd: "parse_formula ts p3 = (g, p4)" by force
    have "p3 \<le> p4" using parse_formula_pos [OF bd] by simp
    then show ?thesis using a c1 c2 v c3 bd p2 p3
      by (auto simp: parse_quantifier.simps [of ts pos] split: sum.splits if_splits)
  qed
qed

lemma parse_quantifier_stuck:
  "parse_quantifier ts pos = (r, pos) \<Longrightarrow> r = Inl (ParseError ''Unexpected end of input'')"
proof -
  assume a: "parse_quantifier ts pos = (r, pos)"
  have "\<not> pos < length ts" using parse_quantifier_first [OF _ a] by auto
  then have "consume None ts pos = (Inl (ParseError ''Unexpected end of input''), pos)"
    by (simp add: consume_def peek_def)
  then show ?thesis using a by (simp add: parse_quantifier.simps [of ts pos])
qed

lemma parse_predicate_first:
  "pos < length ts \<Longrightarrow> parse_predicate ts pos = (r, p) \<Longrightarrow> pos < p"
proof -
  assume lt: "pos < length ts" and a: "parse_predicate ts pos = (r, p)"
  have c1: "consume None ts pos = (Inr (ts ! pos), Suc pos)"
    using lt by (simp add: consume_def peek_def)
  obtain d p2 where c2: "consume (Some ''('') ts (Suc pos) = (d, p2)" by force
  have p2: "Suc pos \<le> p2" using consume_pos [OF c2] by simp
  show ?thesis
  proof (cases d)
    case (Inl e)
    then show ?thesis using a c1 c2 p2 by (simp add: parse_predicate_def)
  next
    case lp: (Inr lp)
    obtain g p3 where lo: "(if peek ts p2 \<noteq> Some '')'' then parse_terms_loop ts p2 []
            else (Inr [], p2)) = (g, p3)" by force
    have p3: "p2 \<le> p3" using lo parse_terms_loop_pos [of ts p2 "[]" g p3]
      by (auto split: if_splits)
    obtain h p4 where c3: "consume (Some '')'') ts p3 = (h, p4)" by force
    have p4: "p3 \<le> p4" using consume_pos [OF c3] by simp
    show ?thesis using a c1 c2 lp lo c3 p2 p3 p4
      by (auto simp: parse_predicate_def split: sum.splits)
  qed
qed

lemma parse_predicate_stuck:
  "parse_predicate ts pos = (r, pos) \<Longrightarrow> r = Inl (ParseError ''Unexpected end of input'')"
proof -
  assume a: "parse_predicate ts pos = (r, pos)"
  have "\<not> pos < length ts" using parse_predicate_first [OF _ a] by auto
  then have "consume None ts pos = (Inl (ParseError ''Unexpected end of input''), pos)"
    by (simp add: consume_def peek_def)
  then show ?thesis using a by (simp add: parse_predicate_def)
qed

lemma parse_formula_stuck:
  assumes a: "parse_formula ts pos = (r, pos)"
  shows "r = Inl (ParseError (''Unexpected token for a formula: '' @ fmt_token (peek ts pos)))"
proof -
  consider (paren) "peek ts pos = Some ''(''"
    | (neg) "peek ts pos = Some ''~''"
    | (quant) "peek ts pos = Some ''forall'' \<or> peek ts pos = Some ''exists''"
    | (other) "peek ts pos \<noteq> Some ''(''" "peek ts pos \<noteq> Some ''~''"
        "peek ts pos \<noteq> Some ''forall''" "peek ts pos \<noteq> Some ''exists''"
    by blast
  then show ?thesis
  proof cases
    case paren
    obtain b p2 where l: "parse_formula ts (Suc pos) = (b, p2)" by force
    have p2: "Suc pos \<le> p2" using parse_formula_pos [OF l] by simp
    obtain c p3 where c2: "consume None ts p2 = (c, p3)" by force
    have p3: "p2 \<le> p3" using consume_pos [OF c2] by simp
    obtain d p4 where rt: "parse_formula ts p3 = (d, p4)" by force
    have p4: "p3 \<le> p4" using parse_formula_pos [OF rt] by simp
    obtain h p5 where c3: "consume (Some '')'') ts p4 = (h, p5)" by force
    have p5: "p4 \<le> p5" using consume_pos [OF c3] by simp
    have False using a l c2 rt c3 p2 p3 p4 p5
      by (auto simp: parse_formula_paren [OF paren] split: sum.splits if_splits)
    then show ?thesis ..
  next
    case neg
    obtain b p2 where l: "parse_formula ts (Suc pos) = (b, p2)" by force
    have p2: "Suc pos \<le> p2" using parse_formula_pos [OF l] by simp
    have False using a l p2 by (auto simp: parse_formula_neg [OF neg] split: sum.splits)
    then show ?thesis ..
  next
    case quant
    then have "pos < length ts" using peek_Some by blast
    then have False using a parse_quantifier_first [of pos ts r pos]
      by (simp add: parse_formula_quant [OF quant])
    then show ?thesis ..
  next
    case other
    show ?thesis
    proof (cases "starts_upper (peek ts pos)")
      case True
      then have "pos < length ts"
        by (auto simp: starts_upper_def peek_def split: option.splits if_splits)
      then have False using a True parse_predicate_first [of pos ts r pos]
        by (simp add: parse_formula_other [OF other])
      then show ?thesis ..
    next
      case False
      then show ?thesis using a by (simp add: parse_formula_other [OF other])
    qed
  qed
qed

lemma parse_term_moves:
  "parse_term ts pos = (r, p) \<Longrightarrow> pos \<le> p \<and> p \<le> Suc pos \<and> (p = pos \<longrightarrow> isl r)"
  using parse_term_Inl [of ts pos _ p] parse_term_Inr [of ts pos _ p] by (cases r) auto

text \<open>
  C8. Parsing terminates on every token list and from every cursor: all calls of
  \<open>parse_formula\<close>, \<open>parse_quantifier\<close> and of the term loop of \<open>parse_predicate\<close> are in the
  domain of the recursion. No production moves the cursor to the left or past the end,
  a production that succeeds has consumed at least one token, and a call that leaves
  the cursor where it was has failed at once, in front of its first token: in
  \<open>parse_formula\<close> through the final \<open>else\<close>, in \<open>parse_quantifier\<close> and
  \<open>parse_predicate\<close> in the first \<open>_consume\<close>.
\<close>

theorem parser_terminates:
  "parse_formula_parse_quantifier_dom (Inl (tokens, pos))
   \<and> parse_formula_parse_quantifier_dom (Inr (tokens, pos))
   \<and> parse_terms_loop_dom (tokens, pos, terms)
   \<and> (\<forall>r p. parse_formula tokens pos = (r, p) \<longrightarrow>
         pos \<le> p \<and> (pos \<le> length tokens \<longrightarrow> p \<le> length tokens)
         \<and> (\<not> isl r \<longrightarrow> pos < p \<and> p \<le> length tokens)
         \<and> (p = pos \<longrightarrow> r = Inl (ParseError (''Unexpected token for a formula: ''
                                               @ fmt_token (peek tokens pos)))))
   \<and> (\<forall>r p. parse_quantifier tokens pos = (r, p) \<longrightarrow>
         pos \<le> p \<and> (pos \<le> length tokens \<longrightarrow> p \<le> length tokens)
         \<and> (p = pos \<longrightarrow> r = Inl (ParseError ''Unexpected end of input'')))
   \<and> (\<forall>r p. parse_predicate tokens pos = (r, p) \<longrightarrow>
         pos \<le> p \<and> (pos \<le> length tokens \<longrightarrow> p \<le> length tokens)
         \<and> (p = pos \<longrightarrow> r = Inl (ParseError ''Unexpected end of input'')))
   \<and> (\<forall>r p. parse_term tokens pos = (r, p) \<longrightarrow>
         pos \<le> p \<and> p \<le> Suc pos \<and> (p = pos \<longrightarrow> isl r))"
proof -
  have d1: "parse_formula_parse_quantifier_dom (Inl (tokens, pos))"
    and d2: "parse_formula_parse_quantifier_dom (Inr (tokens, pos))"
    using parse_formula_quantifier_total by blast+
  have d3: "parse_terms_loop_dom (tokens, pos, terms)"
    using parse_terms_loop_total by blast
  have f: "\<forall>r p. parse_formula tokens pos = (r, p) \<longrightarrow>
         pos \<le> p \<and> (pos \<le> length tokens \<longrightarrow> p \<le> length tokens)
         \<and> (\<not> isl r \<longrightarrow> pos < p \<and> p \<le> length tokens)
         \<and> (p = pos \<longrightarrow> r = Inl (ParseError (''Unexpected token for a formula: ''
                                               @ fmt_token (peek tokens pos))))"
  proof (intro allI impI)
    fix r p assume a: "parse_formula tokens pos = (r, p)"
    have "\<not> isl r \<longrightarrow> pos < p \<and> p \<le> length tokens"
      using a parse_formula_advances [of tokens pos _ p] by (cases r) auto
    then show "pos \<le> p \<and> (pos \<le> length tokens \<longrightarrow> p \<le> length tokens)
         \<and> (\<not> isl r \<longrightarrow> pos < p \<and> p \<le> length tokens)
         \<and> (p = pos \<longrightarrow> r = Inl (ParseError (''Unexpected token for a formula: ''
                                               @ fmt_token (peek tokens pos))))"
      using parse_formula_pos [OF a] parse_formula_stuck [of tokens pos r] a by blast
  qed
  have q: "\<forall>r p. parse_quantifier tokens pos = (r, p) \<longrightarrow>
         pos \<le> p \<and> (pos \<le> length tokens \<longrightarrow> p \<le> length tokens)
         \<and> (p = pos \<longrightarrow> r = Inl (ParseError ''Unexpected end of input''))"
    using parse_quantifier_pos parse_quantifier_stuck by blast
  have pr: "\<forall>r p. parse_predicate tokens pos = (r, p) \<longrightarrow>
         pos \<le> p \<and> (pos \<le> length tokens \<longrightarrow> p \<le> length tokens)
         \<and> (p = pos \<longrightarrow> r = Inl (ParseError ''Unexpected end of input''))"
    using parse_predicate_pos parse_predicate_stuck by blast
  have t: "\<forall>r p. parse_term tokens pos = (r, p) \<longrightarrow>
         pos \<le> p \<and> p \<le> Suc pos \<and> (p = pos \<longrightarrow> isl r)"
    using parse_term_moves by blast
  from d1 d2 d3 f q pr t show ?thesis by blast
qed

theorem parser_terminates_witness:
  "parse_formula [''~'', ''P'', ''('', ''x'', '')''] 0 =
     (Inr (Negation (Predicate ''P'' [Variable ''x''])), 5)
   \<and> \<not> isl (Inr (Negation (Predicate ''P'' [Variable ''x''])) :: ParseError + Formula)
   \<and> (0::nat) < 5 \<and> 5 \<le> length [''~'', ''P'', ''('', ''x'', '')'']
   \<and> parse_formula [''~'', ''P'', ''('', ''x'', '')''] 3 =
       (Inl (ParseError ''Unexpected token for a formula: x''), 3)"
proof -
  have e: "parse_formula [''~'', ''P'', ''('', ''x'', '')''] 0 =
     (Inr (Negation (Predicate ''P'' [Variable ''x''])), 5)"
    by code_simp
  have s: "snd (parse_formula [''~'', ''P'', ''('', ''x'', '')''] 3) = 3"
    by code_simp
  from parser_terminates [of "[''~'', ''P'', ''('', ''x'', '')'']" 0 "[]"] e
  have a: "(0::nat) < 5 \<and> 5 \<le> length [''~'', ''P'', ''('', ''x'', '')'']" by simp
  obtain r where r: "parse_formula [''~'', ''P'', ''('', ''x'', '')''] 3 = (r, 3)"
    using s by (metis prod.collapse)
  from parser_terminates [of "[''~'', ''P'', ''('', ''x'', '')'']" 3 "[]"] r
  have "r = Inl (ParseError (''Unexpected token for a formula: ''
               @ fmt_token (peek [''~'', ''P'', ''('', ''x'', '')''] 3)))" by blast
  then have "r = Inl (ParseError ''Unexpected token for a formula: x'')"
    by (simp add: fmt_token_def peek_def)
  with e a r show ?thesis by simp
qed

text \<open>
  C9. \<open>parse\<close> accepts only a token list that one formula consumes entirely. When the
  first formula is complete and a token is left, the result is the error
  \<open>Unexpected token '...' at end of expression\<close> naming that token, not the formula;
  a returned formula has consumed every token. On a text without tokens, such as the
  empty text, the result is the error \<open>Unexpected token for a formula: None\<close>.
\<close>

theorem parse_whole_input:
  "(\<forall>f p. parse_formula (tokenize text) 0 = (Inr f, p) \<and> p < length (tokenize text) \<longrightarrow>
       parse_text text =
         (Inl (ParseError (''Unexpected token '' @ quoted (tokenize text ! p)
                           @ '' at end of expression'')), p))
   \<and> (\<forall>f p. parse_text text = (Inr f, p) \<longrightarrow>
         p = length (tokenize text) \<and> parse_formula (tokenize text) 0 = (Inr f, p))
   \<and> (tokenize text = [] \<longrightarrow>
         parse_text text = (Inl (ParseError ''Unexpected token for a formula: None''), 0))
   \<and> tokenize [] = []"
proof -
  have a: "\<forall>f p. parse_formula (tokenize text) 0 = (Inr f, p) \<and> p < length (tokenize text) \<longrightarrow>
       parse_text text =
         (Inl (ParseError (''Unexpected token '' @ quoted (tokenize text ! p)
                           @ '' at end of expression'')), p)"
    by (simp add: parse_text_def parse_def peek_def fmt_token_def)
  have b: "\<forall>f p. parse_text text = (Inr f, p) \<longrightarrow>
         p = length (tokenize text) \<and> parse_formula (tokenize text) 0 = (Inr f, p)"
  proof (intro allI impI)
    fix f p assume ok: "parse_text text = (Inr f, p)"
    then have pf: "parse_formula (tokenize text) 0 = (Inr f, p)" and "\<not> p < length (tokenize text)"
      by (auto simp: parse_text_def parse_def split: prod.splits sum.splits if_splits)
    then show "p = length (tokenize text) \<and> parse_formula (tokenize text) 0 = (Inr f, p)"
      using parse_formula_advances [OF pf] by simp
  qed
  have c: "tokenize text = [] \<longrightarrow>
         parse_text text = (Inl (ParseError ''Unexpected token for a formula: None''), 0)"
    by (simp add: parse_text_def parse_def parse_formula.simps [of "[]" 0] peek_def fmt_token_def)
  have d: "tokenize [] = []" by code_simp
  from a b c d show ?thesis by blast
qed

theorem parse_whole_input_witness:
  "parse_formula (tokenize ''P(x) Q'') 0 = (Inr (Predicate ''P'' [Variable ''x'']), 4)
   \<and> 4 < length (tokenize ''P(x) Q'')
   \<and> parse_text ''P(x) Q'' =
       (Inl (ParseError ''Unexpected token 'Q' at end of expression''), 4)"
proof -
  have e: "parse_formula (tokenize ''P(x) Q'') 0 = (Inr (Predicate ''P'' [Variable ''x'']), 4)"
    by code_simp
  have l: "4 < length (tokenize ''P(x) Q'')" by code_simp
  have t: "tokenize ''P(x) Q'' ! 4 = ''Q''" by code_simp
  from parse_whole_input [of "''P(x) Q''"] e l
  have "parse_text ''P(x) Q'' =
         (Inl (ParseError (''Unexpected token '' @ quoted (tokenize ''P(x) Q'' ! 4)
                           @ '' at end of expression'')), 4)" by blast
  with e l t show ?thesis by (simp add: quoted_def)
qed

section \<open>The operator of the binary form\<close>

text \<open>
  C4, as stated, fails: in \<open>(P() x)\<close> the token read as the operator is \<open>x\<close>, and the
  error reported is not the unknown-operator error but the one of the right formula,
  which is parsed before the operator is looked at.
\<close>

theorem unknown_operator_counterexample:
  "tokenize ''(P() x)'' = [''('', ''P'', ''('', '')'', ''x'', '')'']
   \<and> parse_formula (tokenize ''(P() x)'') 1 = (Inr (Predicate ''P'' []), 4)
   \<and> parse_text ''(P() x)'' = (Inl (ParseError ''Unexpected token for a formula: )''), 5)"
  by code_simp

text \<open>
  C4, amended. In the binary form, after \<open>(\<close> and the left formula, exactly one token is
  consumed as the operator, and the right formula is parsed from the next token on.
  When that token is none of \<open>&\<close>, \<open>|\<close> and \<open>->\<close>, \<open>parse_formula\<close> and \<open>parse\<close> fail: with
  the error of the right formula when that fails, with the mismatch error of
  \<open>_consume(')')\<close> when the closing parenthesis is missing, and with the
  \<open>Unknown binary operator\<close> error naming the token in the one remaining case, when
  both have been read.
\<close>

theorem binary_operator_checked_last:
  assumes pk: "peek tokens pos = Some ''(''"
    and left: "parse_formula tokens (Suc pos) = (Inr left, p2)"
    and op: "p2 < length tokens"
    and bad: "tokens ! p2 \<noteq> ''&'' \<and> tokens ! p2 \<noteq> ''|'' \<and> tokens ! p2 \<noteq> ''->''"
  shows "isl (fst (parse_formula tokens pos)) \<and> isl (fst (parse tokens pos))
    \<and> (\<forall>e p. parse_formula tokens (Suc p2) = (Inl e, p) \<longrightarrow>
          parse_formula tokens pos = (Inl e, p))
    \<and> (\<forall>right p4. parse_formula tokens (Suc p2) = (Inr right, p4) \<longrightarrow>
          parse_formula tokens pos =
            (if peek tokens p4 = Some '')''
             then (Inl (ParseError (''Unknown binary operator: '' @ tokens ! p2)), Suc p4)
             else (Inl (ParseError (''Expected '' @ quoted '')'' @ '' but found ''
                          @ quoted (fmt_token (peek tokens p4)) @ '' at position ''
                          @ str_of_nat p4)), p4)))"
proof -
  have c2: "consume None tokens p2 = (Inr (tokens ! p2), Suc p2)"
    using op by (simp add: consume_def peek_def)
  note eq = parse_formula_paren [OF pk]
  have a: "\<forall>e p. parse_formula tokens (Suc p2) = (Inl e, p) \<longrightarrow>
          parse_formula tokens pos = (Inl e, p)"
    by (simp add: eq left c2)
  have b: "\<forall>right p4. parse_formula tokens (Suc p2) = (Inr right, p4) \<longrightarrow>
          parse_formula tokens pos =
            (if peek tokens p4 = Some '')''
             then (Inl (ParseError (''Unknown binary operator: '' @ tokens ! p2)), Suc p4)
             else (Inl (ParseError (''Expected '' @ quoted '')'' @ '' but found ''
                          @ quoted (fmt_token (peek tokens p4)) @ '' at position ''
                          @ str_of_nat p4)), p4))"
    using bad by (simp add: eq left c2 consume_match) (simp add: consume_def fmt_token_def)
  obtain r p where rt: "parse_formula tokens (Suc p2) = (r, p)" by force
  have f: "isl (fst (parse_formula tokens pos))"
    using a b rt by (cases r) (auto split: if_splits)
  then have "isl (fst (parse tokens pos))"
    by (auto simp: parse_def split: prod.splits sum.splits)
  with f a b show ?thesis by blast
qed

theorem binary_operator_checked_last_witness:
  "peek (tokenize ''(P() x Q())'') 0 = Some ''(''
   \<and> parse_formula (tokenize ''(P() x Q())'') (Suc 0) = (Inr (Predicate ''P'' []), 4)
   \<and> 4 < length (tokenize ''(P() x Q())'')
   \<and> tokenize ''(P() x Q())'' ! 4 = ''x''
   \<and> parse_formula (tokenize ''(P() x Q())'') (Suc 4) = (Inr (Predicate ''Q'' []), 8)
   \<and> parse_formula (tokenize ''(P() x Q())'') 0 =
        (Inl (ParseError ''Unknown binary operator: x''), 9)"
proof -
  have pk: "peek (tokenize ''(P() x Q())'') 0 = Some ''(''" by code_simp
  have l: "parse_formula (tokenize ''(P() x Q())'') (Suc 0) = (Inr (Predicate ''P'' []), 4)"
    by code_simp
  have lt: "4 < length (tokenize ''(P() x Q())'')" by code_simp
  have x: "tokenize ''(P() x Q())'' ! 4 = ''x''" by code_simp
  have bad: "tokenize ''(P() x Q())'' ! 4 \<noteq> ''&'' \<and> tokenize ''(P() x Q())'' ! 4 \<noteq> ''|''
             \<and> tokenize ''(P() x Q())'' ! 4 \<noteq> ''->''"
    by (simp add: x)
  have r: "parse_formula (tokenize ''(P() x Q())'') (Suc 4) = (Inr (Predicate ''Q'' []), 8)"
    by code_simp
  have rp: "peek (tokenize ''(P() x Q())'') 8 = Some '')''" by code_simp
  from binary_operator_checked_last [OF pk l lt bad] r rp x
  have "parse_formula (tokenize ''(P() x Q())'') 0 =
        (Inl (ParseError ''Unknown binary operator: x''), 9)" by simp
  with pk l lt x r show ?thesis by simp
qed

section \<open>What a parse error carries\<close>

lemma pef_expected:
  "p \<le> length ts \<Longrightarrow> e \<in> {''('', '')'', ''.'', '',''} \<Longrightarrow> peek ts p \<noteq> Some e \<Longrightarrow>
     parse_error_form ts (expected_message e (peek ts p) p) p"
  unfolding parse_error_form_def by (intro conjI disjI1 bexI [of _ e]) simp_all

lemma pef_end_of_input: "parse_error_form ts ''Unexpected end of input'' (length ts)"
  unfolding parse_error_form_def by (intro conjI disjI2 disjI1) simp_all

lemma pef_end_of_input_term:
  "parse_error_form ts ''Unexpected end of input, expected a term.'' (length ts)"
  unfolding parse_error_form_def by (intro conjI disjI2 disjI1) simp_all

lemma pef_invalid_term:
  "p < length ts \<Longrightarrow> parse_error_form ts (''Invalid term: '' @ ts ! p) p"
  unfolding parse_error_form_def by (intro conjI disjI2 disjI1) simp_all

lemma pef_formula:
  "p \<le> length ts \<Longrightarrow>
     parse_error_form ts (''Unexpected token for a formula: '' @ fmt_token (peek ts p)) p"
  unfolding parse_error_form_def by (intro conjI disjI2 disjI1) simp_all

lemma pef_lowercase:
  "0 < p \<Longrightarrow> p \<le> length ts \<Longrightarrow> \<not> py_islower (ts ! (p - 1)) \<Longrightarrow>
     parse_error_form ts (''Expected a lowercase variable after quantifier, but got ''
                            @ quoted (ts ! (p - 1))) p"
  unfolding parse_error_form_def by (intro conjI disjI2 disjI1) simp_all

lemma pef_operator:
  assumes pk: "peek ts pos = Some ''(''"
    and left: "parse_formula ts (Suc pos) = (Inr left, q)"
    and q: "q < length ts"
    and bad: "ts ! q \<noteq> ''&''" "ts ! q \<noteq> ''|''" "ts ! q \<noteq> ''->''"
    and right: "parse_formula ts (Suc q) = (Inr right, p4)"
    and rp: "peek ts p4 = Some '')''"
  shows "parse_error_form ts (''Unknown binary operator: '' @ ts ! q) (Suc p4)"
proof -
  have lq: "pos < q" using parse_formula_advances [OF left] by simp
  have qp: "Suc q < p4" "p4 < length ts"
    using parse_formula_advances [OF right] peek_Some [OF rp] by simp_all
  have "\<exists>pos < q. peek ts pos = Some ''(''
          \<and> \<not> isl (fst (parse_formula ts (Suc pos)))
          \<and> snd (parse_formula ts (Suc pos)) = q"
    using pk left lq by auto
  then have b: "bad_operator_at ts q (Suc p4)"
    unfolding bad_operator_at_def using q bad right rp by simp
  have lt: "q < Suc p4" using qp by simp
  have le: "Suc p4 \<le> length ts" using qp by simp
  show ?thesis
    unfolding parse_error_form_def
    using b lt le by (intro conjI disjI2 disjI1 exI [of _ q]) simp_all
qed

lemma pef_leftover:
  "p < length ts \<Longrightarrow>
     parse_error_form ts (''Unexpected token '' @ quoted (ts ! p) @ '' at end of expression'') p"
  unfolding parse_error_form_def by (intro conjI disjI2) simp_all

lemma consume_error_cases:
  "consume expected ts pos = (Inl (ParseError m), p) \<Longrightarrow>
     p = pos \<and>
     ((\<exists>e. expected = Some e \<and> e \<noteq> [] \<and> peek ts pos \<noteq> Some e
            \<and> m = expected_message e (peek ts pos) pos)
      \<or> ((expected = None \<or> expected = Some []) \<and> peek ts pos = None
            \<and> m = ''Unexpected end of input''))"
  unfolding consume_def Let_def expected_message_def
  by (cases expected; cases "peek ts pos") (auto simp: fmt_token_def split: if_splits)

lemma consume_expected_error:
  assumes "consume (Some e) ts pos = (Inl (ParseError m), p)"
    and "e \<in> {''('', '')'', ''.'', '',''}" and "pos \<le> length ts"
  shows "parse_error_form ts m p"
proof -
  from consume_error_cases [OF assms(1)] assms(2)
  have "p = pos" "peek ts pos \<noteq> Some e" "m = expected_message e (peek ts pos) pos"
    by (auto simp: peek_def)
  then show ?thesis using assms(2,3) pef_expected [of pos ts e] by simp
qed

lemma consume_None_error:
  assumes "consume None ts pos = (Inl (ParseError m), p)" and "pos \<le> length ts"
  shows "parse_error_form ts m p"
proof -
  from consume_error_cases [OF assms(1)]
  have "p = pos" "peek ts pos = None" "m = ''Unexpected end of input''" by auto
  moreover then have "pos = length ts" using assms(2) by (simp add: peek_def split: if_splits)
  ultimately show ?thesis using pef_end_of_input [of ts] by simp
qed

lemma parse_term_error_cases:
  "parse_term ts pos = (Inl (ParseError m), p) \<Longrightarrow>
     p = pos \<and>
     (((peek ts pos = None \<or> peek ts pos = Some []) \<and> m = ''Unexpected end of input, expected a term.'')
      \<or> (pos < length ts \<and> m = ''Invalid term: '' @ ts ! pos))"
  unfolding parse_term_def
  by (cases "peek ts pos")
     (auto simp: consume_def peek_def split: list.splits if_splits)

lemma parse_term_error:
  assumes "parse_term ts pos = (Inl (ParseError m), p)" and "pos \<le> length ts" and "[] \<notin> set ts"
  shows "parse_error_form ts m p"
proof -
  from parse_term_error_cases [OF assms(1)] have p: "p = pos"
    and c: "((peek ts pos = None \<or> peek ts pos = Some []) \<and> m = ''Unexpected end of input, expected a term.'')
      \<or> (pos < length ts \<and> m = ''Invalid term: '' @ ts ! pos)" by auto
  have "peek ts pos \<noteq> Some []" using assms(3) by (metis nth_mem peek_Some)
  moreover have "peek ts pos = None \<Longrightarrow> pos = length ts"
    using assms(2) by (simp add: peek_def split: if_splits)
  ultimately show ?thesis using c p pef_end_of_input_term [of ts] pef_invalid_term [of pos ts]
    by auto
qed

lemma parse_terms_loop_error:
  "parse_terms_loop ts pos acc = (Inl (ParseError m), p) \<Longrightarrow> pos \<le> length ts \<Longrightarrow>
     [] \<notin> set ts \<Longrightarrow> parse_error_form ts m p"
proof (induction ts pos acc rule: parse_terms_loop.induct)
  case (1 tokens pos acc)
  note eq = parse_terms_loop.simps [of tokens pos acc]
  obtain a p1 where t: "parse_term tokens pos = (a, p1)" by force
  show ?case
  proof (cases a)
    case (Inl e)
    then show ?thesis using 1(2-) t parse_term_error [of tokens pos m p]
      by (cases e) (simp add: eq)
  next
    case (Inr u)
    with t have p1: "p1 = Suc pos" "pos < length tokens" using parse_term_Inr by blast+
    have t': "parse_term tokens pos = (Inr u, Suc pos)" using t Inr p1 by simp
    show ?thesis
    proof (cases "peek tokens (Suc pos) = Some '')''")
      case True
      then show ?thesis using 1(2) t' by (simp add: eq)
    next
      case False
      obtain b p2 where c: "consume (Some '','') tokens (Suc pos) = (b, p2)" by force
      show ?thesis
      proof (cases b)
        case (Inl e)
        then show ?thesis
          using 1(2) t' False c p1 consume_expected_error [of "'',''" tokens "Suc pos" m p]
          by (cases e) (simp add: eq)
      next
        case cm: (Inr cm)
        have p2: "p2 = Suc (Suc pos)" "Suc pos < length tokens"
          using consume_Inr [of _ tokens "Suc pos" cm p2] c cm by simp_all
        have rec: "parse_terms_loop tokens (Suc (Suc pos)) (acc @ [u]) = (Inl (ParseError m), p)"
          using 1(2) t' False c cm p2 by (simp add: eq)
        show ?thesis
          using 1(1) [OF t' [symmetric] refl False _ refl rec] c cm p2 1(4) by simp
      qed
    qed
  qed
qed

lemma parse_predicate_error:
  assumes a: "parse_predicate ts pos = (Inl (ParseError m), p)"
    and le: "pos \<le> length ts" and ne: "[] \<notin> set ts"
  shows "parse_error_form ts m p"
proof -
  obtain b p1 where c1: "consume None ts pos = (b, p1)" by force
  show ?thesis
  proof (cases b)
    case (Inl e)
    then show ?thesis using a c1 consume_None_error [of ts pos m p] le
      by (cases e) (simp add: parse_predicate_def)
  next
    case name: (Inr name)
    have n: "p1 = Suc pos" "pos < length ts"
      using consume_Inr [of None ts pos name p1] c1 name by simp_all
    have c1': "consume None ts pos = (Inr name, Suc pos)" using c1 name n by simp
    obtain d p2 where c2: "consume (Some ''('') ts (Suc pos) = (d, p2)" by force
    show ?thesis
    proof (cases d)
      case (Inl e)
      then show ?thesis
        using a c1' c2 n consume_expected_error [of "''(''" ts "Suc pos" m p]
        by (cases e) (simp add: parse_predicate_def)
    next
      case lp: (Inr lp)
      have l: "p2 = Suc (Suc pos)" "Suc pos < length ts"
        using consume_Inr [of _ ts "Suc pos" lp p2] c2 lp by simp_all
      have c2': "consume (Some ''('') ts (Suc pos) = (Inr lp, Suc (Suc pos))"
        using c2 lp l by simp
      obtain g p3 where lo: "(if peek ts (Suc (Suc pos)) \<noteq> Some '')''
            then parse_terms_loop ts (Suc (Suc pos)) [] else (Inr [], Suc (Suc pos))) = (g, p3)"
        by force
      have p3: "p3 \<le> length ts"
        using lo l parse_terms_loop_pos [of ts "Suc (Suc pos)" "[]" g p3]
        by (auto split: if_splits)
      show ?thesis
      proof (cases g)
        case (Inl e)
        then have "parse_terms_loop ts (Suc (Suc pos)) [] = (Inl e, p3)"
          using lo by (auto split: if_splits)
        then show ?thesis
          using a c1' c2' lo Inl l parse_terms_loop_error [of ts "Suc (Suc pos)" "[]" m p] ne
          by (cases e) (simp add: parse_predicate_def)
      next
        case terms: (Inr terms)
        obtain h p4 where c3: "consume (Some '')'') ts p3 = (h, p4)" by force
        show ?thesis
        proof (cases h)
          case (Inl e)
          then show ?thesis
            using a c1' c2' lo terms c3 p3 consume_expected_error [of "'')''" ts p3 m p]
            by (cases e) (simp add: parse_predicate_def)
        next
          case (Inr rp)
          then show ?thesis using a c1' c2' lo terms c3 by (simp add: parse_predicate_def)
        qed
      qed
    qed
  qed
qed

lemma parse_formula_error:
  "parse_formula ts pos = (Inl (ParseError m), p) \<Longrightarrow> pos \<le> length ts \<Longrightarrow> [] \<notin> set ts \<Longrightarrow>
     parse_error_form ts m p"
proof (induction "length ts - pos" arbitrary: pos m p rule: less_induct)
  case less
  note a = less.prems(1) and le = less.prems(2) and ne = less.prems(3)
  consider (paren) "peek ts pos = Some ''(''"
    | (neg) "peek ts pos = Some ''~''"
    | (quant) "peek ts pos = Some ''forall'' \<or> peek ts pos = Some ''exists''"
    | (other) "peek ts pos \<noteq> Some ''(''" "peek ts pos \<noteq> Some ''~''"
        "peek ts pos \<noteq> Some ''forall''" "peek ts pos \<noteq> Some ''exists''"
    by blast
  then show ?case
  proof cases
    case paren
    note eq = parse_formula_paren [OF paren]
    have lt: "pos < length ts" using paren peek_Some by blast
    obtain b p2 where l: "parse_formula ts (Suc pos) = (b, p2)" by force
    show ?thesis
    proof (cases b)
      case (Inl e)
      then have "parse_formula ts (Suc pos) = (Inl (ParseError m), p)"
        using a l by (cases e) (simp add: eq)
      then show ?thesis using less.hyps [of "Suc pos" m p] lt ne by simp
    next
      case left: (Inr left)
      have p2: "Suc pos \<le> p2" "p2 \<le> length ts"
        using parse_formula_advances [of ts "Suc pos" left p2] l left by simp_all
      obtain c p3 where c2: "consume None ts p2 = (c, p3)" by force
      show ?thesis
      proof (cases c)
        case (Inl e)
        then have "consume None ts p2 = (Inl (ParseError m), p)"
          using a l left c2 by (cases e) (simp add: eq)
        then show ?thesis using consume_None_error p2 by blast
      next
        case op: (Inr op)
        have o: "p3 = Suc p2" "p2 < length ts" "op = ts ! p2"
          using consume_Inr [of None ts p2 op p3] c2 op by simp_all
        have c2': "consume None ts p2 = (Inr (ts ! p2), Suc p2)" using c2 op o by simp
        obtain d p4 where rt: "parse_formula ts (Suc p2) = (d, p4)" by force
        show ?thesis
        proof (cases d)
          case (Inl e)
          then have "parse_formula ts (Suc p2) = (Inl (ParseError m), p)"
            using a l left c2' rt by (cases e) (simp add: eq)
          then show ?thesis using less.hyps [of "Suc p2" m p] lt p2 o ne by simp
        next
          case right: (Inr right)
          have p4: "Suc p2 < p4" "p4 \<le> length ts"
            using parse_formula_advances [of ts "Suc p2" right p4] rt right by simp_all
          obtain h p5 where c3: "consume (Some '')'') ts p4 = (h, p5)" by force
          show ?thesis
          proof (cases h)
            case (Inl e)
            then have "consume (Some '')'') ts p4 = (Inl (ParseError m), p)"
              using a l left c2' rt right c3 by (cases e) (simp add: eq)
            then show ?thesis using consume_expected_error [of "'')''" ts p4 m p] p4 by simp
          next
            case rp: (Inr rp)
            have r: "p5 = Suc p4" "p4 < length ts"
              using consume_Inr [of _ ts p4 rp p5] c3 rp by simp_all
            have rpk: "peek ts p4 = Some '')''"
              using c3 rp by (auto simp: consume_def Let_def split: if_splits option.splits)
            have bad: "ts ! p2 \<noteq> ''&''" "ts ! p2 \<noteq> ''|''" "ts ! p2 \<noteq> ''->''"
              using a l left c2' rt right c3 rp by (auto simp: eq split: if_splits)
            have mp: "m = ''Unknown binary operator: '' @ ts ! p2" "p = Suc p4"
              using a l left c2' rt right c3 rp r by (auto simp: eq split: if_splits)
            have lf: "parse_formula ts (Suc pos) = (Inr left, p2)" using l left by simp
            have rf: "parse_formula ts (Suc p2) = (Inr right, p4)" using rt right by simp
            show ?thesis
              unfolding mp by (rule pef_operator [OF paren lf o(2) bad rf rpk])
          qed
        qed
      qed
    qed
  next
    case neg
    have lt: "pos < length ts" using neg peek_Some by blast
    obtain b p2 where l: "parse_formula ts (Suc pos) = (b, p2)" by force
    have "parse_formula ts (Suc pos) = (Inl (ParseError m), p)"
      using a l by (cases b) (auto simp: parse_formula_neg [OF neg])
    then show ?thesis using less.hyps [of "Suc pos" m p] lt ne by simp
  next
    case quant
    have lt: "pos < length ts" using quant peek_Some by blast
    have pq: "parse_quantifier ts pos = (Inl (ParseError m), p)"
      using a parse_formula_quant [OF quant] by simp
    note eq = parse_quantifier.simps [of ts pos]
    have c1: "consume None ts pos = (Inr (ts ! pos), Suc pos)"
      using lt by (simp add: consume_def peek_def)
    obtain b p2 where c2: "consume None ts (Suc pos) = (b, p2)" by force
    show ?thesis
    proof (cases b)
      case (Inl e)
      then have "consume None ts (Suc pos) = (Inl (ParseError m), p)"
        using pq c1 c2 by (cases e) (simp add: eq)
      then show ?thesis using consume_None_error [of ts "Suc pos" m p] lt by simp
    next
      case v: (Inr v)
      have vv: "p2 = Suc (Suc pos)" "Suc pos < length ts" "v = ts ! Suc pos"
        using consume_Inr [of None ts "Suc pos" v p2] c2 v by simp_all
      have c2': "consume None ts (Suc pos) = (Inr (ts ! Suc pos), Suc (Suc pos))"
        using c2 v vv by simp
      show ?thesis
      proof (cases "py_islower (ts ! Suc pos)")
        case False
        then have "m = ''Expected a lowercase variable after quantifier, but got ''
                        @ quoted (ts ! Suc pos) \<and> p = Suc (Suc pos)"
          using pq c1 c2' by (auto simp: eq)
        then show ?thesis using pef_lowercase [of "Suc (Suc pos)" ts] False vv by simp
      next
        case True
        obtain d p3 where c3: "consume (Some ''.'') ts (Suc (Suc pos)) = (d, p3)" by force
        show ?thesis
        proof (cases d)
          case (Inl e)
          then have "consume (Some ''.'') ts (Suc (Suc pos)) = (Inl (ParseError m), p)"
            using pq c1 c2' True c3 by (cases e) (simp add: eq)
          then show ?thesis
            using consume_expected_error [of "''.''" ts "Suc (Suc pos)" m p] vv by simp
        next
          case dot: (Inr dot)
          have dd: "p3 = Suc (Suc (Suc pos))" "Suc (Suc pos) < length ts"
            using consume_Inr [of _ ts "Suc (Suc pos)" dot p3] c3 dot by simp_all
          have c3': "consume (Some ''.'') ts (Suc (Suc pos)) = (Inr dot, Suc (Suc (Suc pos)))"
            using c3 dot dd by simp
          obtain g p4 where bd: "parse_formula ts (Suc (Suc (Suc pos))) = (g, p4)" by force
          have "parse_formula ts (Suc (Suc (Suc pos))) = (Inl (ParseError m), p)"
            using pq c1 c2' True c3' bd by (cases g) (auto simp: eq split: if_splits)
          then show ?thesis using less.hyps [of "Suc (Suc (Suc pos))" m p] dd ne by simp
        qed
      qed
    qed
  next
    case other
    note eq = parse_formula_other [OF other]
    show ?thesis
    proof (cases "starts_upper (peek ts pos)")
      case True
      then show ?thesis using a eq parse_predicate_error [of ts pos m p] le ne by simp
    next
      case False
      then have m: "m = ''Unexpected token for a formula: '' @ fmt_token (peek ts pos)"
        and p: "p = pos"
        using a eq by auto
      show ?thesis unfolding m p by (rule pef_formula [OF le])
    qed
  qed
qed

lemma tokenize_nonempty: "[] \<notin> set (tokenize text)"
  by (simp add: tokenize_def)

text \<open>
  C3, as stated, fails: a \<open>ParseError\<close> has no position field, and most messages do not
  print one. The empty text fails with the cursor at 0 of 0 tokens, the text \<open>~\<close> with
  the cursor at 1 of 1 token, and both raise the same error value.
\<close>

theorem error_position_counterexample:
  "parse_text '''' = (Inl (ParseError ''Unexpected token for a formula: None''), 0)
   \<and> length (tokenize '''') = 0
   \<and> parse_text ''~'' = (Inl (ParseError ''Unexpected token for a formula: None''), 1)
   \<and> length (tokenize ''~'') = 1"
  by code_simp

text \<open>
  C3, amended. Every \<open>ParseError\<close> that \<open>parse\<close> raises has its message as only content;
  there is no position field. For the token list and the cursor \<open>p\<close> at which the error
  leaves the parser, which is never beyond the end, the message has one of eight forms.
  Only the first prints a position: the mismatch message of \<open>_consume(expected)\<close> for an
  expected \<open>(\<close>, \<open>)\<close>, \<open>.\<close> or \<open>,\<close> names the token found at the cursor in its place,
  \<open>None\<close> when the input has ended, and prints \<open>p\<close>, the zero-based index of that
  token or the number of tokens. The two end-of-input messages, raised with the cursor
  at the end, name no token. The invalid-term message and the leftover-token message
  name the token at the cursor, the unexpected-token-for-a-formula message names it
  or \<open>None\<close>, the lowercase-variable message names the token before the cursor, which
  \<open>str.islower\<close> rejects, and the unknown-operator message names the token that was
  consumed as the operator of a binary form whose right formula and closing
  parenthesis have been read since, with the cursor after that parenthesis.
\<close>

theorem parse_error_message_forms:
  "parse_text text = (Inl (ParseError m), p) \<Longrightarrow> parse_error_form (tokenize text) m p"
proof -
  assume a: "parse_text text = (Inl (ParseError m), p)"
  obtain r q where pf: "parse_formula (tokenize text) 0 = (r, q)" by force
  show ?thesis
  proof (cases r)
    case (Inl e)
    then have "parse_formula (tokenize text) 0 = (Inl (ParseError m), p)"
      using a pf by (cases e) (simp add: parse_text_def parse_def)
    then show ?thesis using parse_formula_error tokenize_nonempty by blast
  next
    case (Inr f)
    then have "q < length (tokenize text) \<and> p = q \<and>
        m = ''Unexpected token '' @ quoted (tokenize text ! q) @ '' at end of expression''"
      using a pf by (auto simp: parse_text_def parse_def peek_def fmt_token_def split: if_splits)
    then show ?thesis using pef_leftover [of q "tokenize text"] by simp
  qed
qed

theorem parse_error_message_forms_witness:
  "parse_text ''(P(x) & Q(x)'' =
     (Inl (ParseError ''Expected ')' but found 'None' at position 10''), 10)
   \<and> parse_error_form (tokenize ''(P(x) & Q(x)'')
        ''Expected ')' but found 'None' at position 10'' 10
   \<and> length (tokenize ''(P(x) & Q(x)'') = 10"
proof -
  have e: "parse_text ''(P(x) & Q(x)'' =
     (Inl (ParseError ''Expected ')' but found 'None' at position 10''), 10)"
    by code_simp
  have l: "length (tokenize ''(P(x) & Q(x)'') = 10" by code_simp
  from parse_error_message_forms [OF e] e l show ?thesis by simp
qed

section \<open>What the tokenizer returns\<close>

lemma legal_single:
  "c = CHR ''('' \<or> c = CHR '')'' \<or> c = CHR ''~'' \<or> c = CHR ''&'' \<or> c = CHR ''|''
     \<or> c = CHR ''.'' \<or> c = CHR '','' \<Longrightarrow> legal_token [c]"
  unfolding legal_token_def by blast

lemma legal_arrow: "legal_token ''->''"
  unfolding legal_token_def by simp

lemma legal_lower:
  "az_lower c \<Longrightarrow> legal_token (c # takeWhile (\<lambda>x. az_lower x \<or> digit09 x) cs)"
  unfolding legal_token_def lower_ident_def
  by (auto simp: list_all_iff dest: set_takeWhileD)

lemma legal_upper:
  "az_upper c \<Longrightarrow> legal_token (c # takeWhile (\<lambda>x. az_upper x \<or> digit09 x) cs)"
  unfolding legal_token_def upper_ident_def
  by (auto simp: list_all_iff dest: set_takeWhileD)

lemma match_group_Some:
  "match_group s = Some (g, rest) \<Longrightarrow> s = g @ rest \<and> legal_token g"
proof (cases s)
  case Nil
  assume "match_group s = Some (g, rest)"
  with Nil show ?thesis by simp
next
  case (Cons c cs)
  assume a: "match_group s = Some (g, rest)"
  have app: "s = g @ rest"
    using a Cons by (auto split: if_splits list.splits)
  have "legal_token g"
    using a Cons legal_single [of c] legal_arrow legal_lower [of c cs] legal_upper [of c cs]
    by (simp split: if_splits list.splits)
  with app show ?thesis by simp
qed

lemma ws_not_start: "py_isspace_char c \<Longrightarrow> \<not> starts_token c"
  unfolding py_isspace_char_def starts_token_def az_lower_def az_upper_def Let_def
  by auto

lemma match_group_None: "match_group (c # cs) = None \<Longrightarrow> \<not> starts_token c"
  by (auto simp: starts_token_def split: if_splits)

lemma token_regex_match_None:
  assumes "token_regex_match (c # cs) = None"
  shows "\<not> starts_token c"
proof (cases "py_isspace_char c")
  case True
  then show ?thesis by (rule ws_not_start)
next
  case False
  then have "match_group (c # cs) = None"
    using assms by (simp add: token_regex_match_def del: match_group.simps split: option.splits prod.splits)
  then show ?thesis by (rule match_group_None)
qed

lemma token_regex_match_Some:
  assumes "token_regex_match s = Some (g, rest)"
  shows "legal_token g \<and>
         filter (\<lambda>c. \<not> py_isspace_char c) s
           = filter (\<lambda>c. \<not> py_isspace_char c) g @ filter (\<lambda>c. \<not> py_isspace_char c) rest"
proof -
  from assms obtain r where g: "match_group (dropWhile py_isspace_char s) = Some (g, r)"
    and rest: "rest = dropWhile py_isspace_char r"
    by (auto simp: token_regex_match_def split: option.splits)
  have f: "\<And>xs. filter (\<lambda>c. \<not> py_isspace_char c) (dropWhile py_isspace_char xs)
              = filter (\<lambda>c. \<not> py_isspace_char c) xs"
    subgoal for xs by (induction xs) auto
    done
  from match_group_Some [OF g] have d: "dropWhile py_isspace_char s = g @ r" and l: "legal_token g"
    by simp_all
  have "filter (\<lambda>c. \<not> py_isspace_char c) s
          = filter (\<lambda>c. \<not> py_isspace_char c) (g @ r)"
    using f [of s] d by simp
  also have "\<dots> = filter (\<lambda>c. \<not> py_isspace_char c) g @ filter (\<lambda>c. \<not> py_isspace_char c) rest"
    using f [of r] rest by simp
  finally show ?thesis using l by simp
qed

lemma re_split_from_pieces:
  "unmatched_piece piece \<Longrightarrow>
     \<forall>t \<in> set (re_split_from piece s). legal_token t \<or> unmatched_piece t"
proof (induction piece s rule: re_split_from.induct)
  case (1 piece)
  then show ?case by simp
next
  case (2 piece c cs)
  show ?case
  proof (cases "token_regex_match (c # cs)")
    case None
    then have "unmatched_piece (piece @ [c])"
      using 2(3) token_regex_match_None by (simp add: unmatched_piece_def)
    then show ?thesis using 2(1) [OF None] None by simp
  next
    case (Some x)
    obtain g rest where x: "x = (g, rest)" by (cases x)
    have "legal_token g" using token_regex_match_Some Some x by blast
    moreover have "\<forall>t \<in> set (re_split_from [] rest). legal_token t \<or> unmatched_piece t"
      using 2(2) [OF Some x [symmetric]] by (simp add: unmatched_piece_def)
    ultimately show ?thesis using Some x 2(3) by simp
  qed
qed

lemma re_split_from_chars:
  "filter (\<lambda>c. \<not> py_isspace_char c) (concat (re_split_from piece s))
     = filter (\<lambda>c. \<not> py_isspace_char c) (piece @ s)"
proof (induction piece s rule: re_split_from.induct)
  case (1 piece)
  then show ?case by simp
next
  case (2 piece c cs)
  show ?case
  proof (cases "token_regex_match (c # cs)")
    case None
    then show ?thesis using 2(1) [OF None] by simp
  next
    case (Some x)
    obtain g rest where x: "x = (g, rest)" by (cases x)
    show ?thesis
      using 2(2) [OF Some x [symmetric]] token_regex_match_Some [of "c # cs" g rest] Some x
      by simp
  qed
qed

lemma filter_space_pieces:
  "filter (\<lambda>c. \<not> py_isspace_char c) (concat (filter (\<lambda>t. t \<noteq> [] \<and> \<not> py_isspace t) ps))
     = filter (\<lambda>c. \<not> py_isspace_char c) (concat ps)"
  by (induction ps) (auto simp: py_isspace_def list_all_iff filter_empty_conv)

lemma str_replace_spaces:
  "py_isspace_char (CHR '' '') \<Longrightarrow> r = [CHR '' '', c, CHR '' ''] \<Longrightarrow>
   filter (\<lambda>c. \<not> py_isspace_char c) (str_replace c r s)
     = filter (\<lambda>c. \<not> py_isspace_char c) s"
  unfolding str_replace_def by (induction s) auto

lemma space_is_space: "py_isspace_char (CHR '' '')"
  by (simp add: py_isspace_char_def)

lemma tokenize_tokens:
  assumes "t \<in> set (tokenize s)"
  shows "t \<noteq> [] \<and> \<not> py_isspace t \<and> (legal_token t \<or> unmatched_piece t)"
proof -
  have u: "unmatched_piece []" by (simp add: unmatched_piece_def)
  show ?thesis
    using re_split_from_pieces [OF u] assms by (auto simp: tokenize_def re_split_def Let_def)
qed

lemma tokenize_characters:
  "filter (\<lambda>c. \<not> py_isspace_char c) (concat (tokenize s))
     = filter (\<lambda>c. \<not> py_isspace_char c) s"
proof -
  have "filter (\<lambda>c. \<not> py_isspace_char c) (concat (tokenize s))
       = filter (\<lambda>c. \<not> py_isspace_char c)
           (str_replace (CHR ''.'') '' . '' (str_replace (CHR '')'') '' ) ''
              (str_replace (CHR ''('') '' ( '' s)))"
    by (simp add: tokenize_def re_split_def Let_def filter_space_pieces re_split_from_chars)
  also have "\<dots> = filter (\<lambda>c. \<not> py_isspace_char c) s"
    by (simp add: str_replace_spaces [OF space_is_space])
  finally show ?thesis .
qed

section \<open>Letters in tokens\<close>

lemma match_group_set:
  "match_group s = Some (g, rest) \<Longrightarrow> set g \<subseteq> set s \<and> set rest \<subseteq> set s"
  using match_group_Some [of s g rest] by auto

lemma token_regex_match_set:
  assumes "token_regex_match s = Some (g, rest)"
  shows "set g \<subseteq> set s \<and> set rest \<subseteq> set s"
proof -
  from assms obtain r where g: "match_group (dropWhile py_isspace_char s) = Some (g, r)"
    and rest: "rest = dropWhile py_isspace_char r"
    by (auto simp: token_regex_match_def split: option.splits)
  have "set (dropWhile py_isspace_char s) \<subseteq> set s" "set rest \<subseteq> set r"
    using rest by (auto dest: set_dropWhileD)
  then show ?thesis using match_group_set [OF g] by blast
qed

lemma re_split_from_set:
  "t \<in> set (re_split_from piece s) \<Longrightarrow> set t \<subseteq> set piece \<union> set s"
proof (induction piece s rule: re_split_from.induct)
  case (1 piece)
  then show ?case by simp
next
  case (2 piece c cs)
  show ?case
  proof (cases "token_regex_match (c # cs)")
    case None
    then show ?thesis using 2(1) [OF None] 2(3) by auto
  next
    case (Some x)
    obtain g rest where x: "x = (g, rest)" by (cases x)
    have s: "set g \<subseteq> set (c # cs)" "set rest \<subseteq> set (c # cs)"
      using token_regex_match_set Some x by blast+
    have "t = piece \<or> t = g \<or> t \<in> set (re_split_from [] rest)"
      using 2(3) Some x by simp
    then show ?thesis using 2(2) [OF Some x [symmetric]] s by auto
  qed
qed

lemma str_replace_set: "set (str_replace c r s) \<subseteq> set s \<union> set r"
  unfolding str_replace_def by (induction s) auto

lemma tokenize_chars:
  assumes "t \<in> set (tokenize text)"
  shows "set t \<subseteq> set text \<union> {CHR '' '', CHR ''('', CHR '')'', CHR ''.''}"
proof -
  let ?t1 = "str_replace (CHR ''('') '' ( '' text"
  let ?t2 = "str_replace (CHR '')'') '' ) '' ?t1"
  let ?t3 = "str_replace (CHR ''.'') '' . '' ?t2"
  have "t \<in> set (re_split_from [] ?t3)"
    using assms by (simp add: tokenize_def re_split_def Let_def)
  then have "set t \<subseteq> set ?t3" using re_split_from_set by fastforce
  also have "\<dots> \<subseteq> set ?t2 \<union> set '' . ''" by (rule str_replace_set)
  also have "\<dots> \<subseteq> (set ?t1 \<union> set '' ) '') \<union> set '' . ''"
    using str_replace_set [of "CHR '')''" "'' ) ''" ?t1] by blast
  also have "\<dots> \<subseteq> ((set text \<union> set '' ( '') \<union> set '' ) '') \<union> set '' . ''"
    using str_replace_set [of "CHR ''(''" "'' ( ''" "text"] by blast
  finally show ?thesis by auto
qed

lemma az_lower_cased: "az_lower c \<Longrightarrow> py_islower_char c \<and> \<not> py_isupper_char c"
  unfolding az_lower_def py_islower_char_def py_isupper_char_def Let_def by auto

lemma az_upper_cased: "az_upper c \<Longrightarrow> py_isupper_char c \<and> \<not> py_islower_char c"
  unfolding az_upper_def py_islower_char_def py_isupper_char_def Let_def by auto

lemma digit_not_cased: "digit09 c \<Longrightarrow> \<not> py_isupper_char c \<and> \<not> py_islower_char c"
  unfolding digit09_def py_islower_char_def py_isupper_char_def Let_def by auto

lemma punct_not_cased:
  "c \<in> {CHR '' '', CHR ''('', CHR '')'', CHR ''.'', CHR '','', CHR ''~'', CHR ''&'', CHR ''|'',
         CHR ''-'', CHR ''>''} \<Longrightarrow> \<not> py_isupper_char c \<and> \<not> py_islower_char c"
  unfolding py_islower_char_def py_isupper_char_def Let_def by auto

lemma legal_token_alt:
  "legal_token t = (t \<in> set punct_tokens \<or> lower_ident t \<or> upper_ident t)"
  by (simp add: legal_token_def punct_tokens_def)

lemma punct_token_chars:
  "t \<in> set punct_tokens \<Longrightarrow>
     t \<noteq> [] \<and> (\<forall>c \<in> set t. \<not> py_isupper_char c \<and> \<not> py_islower_char c)"
  unfolding punct_tokens_def py_islower_char_def py_isupper_char_def Let_def
  by (simp, elim disjE) simp_all

lemma legal_cased_head:
  assumes "legal_token t"
  shows "(py_islower_char (hd t) \<longrightarrow> lower_ident t) \<and> (py_isupper_char (hd t) \<longrightarrow> upper_ident t)
         \<and> (py_islower t \<longrightarrow> lower_ident t)"
proof -
  from assms have "t \<in> set punct_tokens \<or> lower_ident t \<or> upper_ident t"
    by (simp only: legal_token_alt)
  then show ?thesis
  proof (elim disjE)
    assume "t \<in> set punct_tokens"
    from punct_token_chars [OF this] show ?thesis
      by (auto simp: py_islower_def list_ex_iff)
  next
    assume lower: "lower_ident t"
    then show ?thesis using az_lower_cased [of "hd t"] by (auto simp: lower_ident_def)
  next
    assume upper: "upper_ident t"
    then have "\<forall>c \<in> set t. \<not> py_islower_char c"
      using az_upper_cased digit_not_cased
      by (cases t) (auto simp: upper_ident_def list_all_iff)
    then show ?thesis using upper by (auto simp: py_islower_def list_ex_iff upper_ident_def)
  qed
qed

lemma token_cased_ident:
  assumes asc: "list_all ascii_cased text" and tok: "t \<in> set (tokenize text)"
  shows "(py_islower_char (hd t) \<longrightarrow> lower_ident t) \<and> (py_isupper_char (hd t) \<longrightarrow> upper_ident t)
         \<and> (py_islower t \<longrightarrow> lower_ident t)"
proof -
  from tokenize_tokens [OF tok] have ne: "t \<noteq> []"
    and alt: "legal_token t \<or> unmatched_piece t" by blast+
  from alt show ?thesis
  proof
    assume "legal_token t"
    then show ?thesis by (rule legal_cased_head)
  next
    assume u: "unmatched_piece t"
    have "\<forall>c \<in> set t. ascii_cased c"
    proof
      fix c assume c: "c \<in> set t"
      then have "c \<in> set text \<or> c \<in> {CHR '' '', CHR ''('', CHR '')'', CHR ''.''}"
        using tokenize_chars [OF tok] by blast
      then show "ascii_cased c"
        using asc punct_not_cased [of c] by (auto simp: list_all_iff ascii_cased_def)
    qed
    then have "\<forall>c \<in> set t. \<not> py_isupper_char c \<and> \<not> py_islower_char c"
      using u by (auto simp: unmatched_piece_def list_all_iff ascii_cased_def starts_token_def)
    then show ?thesis using ne by (auto simp: py_islower_def list_ex_iff)
  qed
qed

section \<open>The names of variables and constants\<close>

lemma term_from_names:
  "cased_tokens_ident ts \<Longrightarrow> tok \<in> set ts \<Longrightarrow> term_from tok t \<Longrightarrow> names_match t"
  by (auto simp: cased_tokens_ident_def term_from_def)

lemma parse_predicate_names:
  assumes "parse_predicate ts pos = (Inr f, p)" and "cased_tokens_ident ts"
  shows "names_match f"
proof -
  from parse_predicate_success [OF assms(1)] show ?thesis
  proof (elim conjE disjE exE)
    fix terms p3
    assume "parse_terms_loop ts (Suc (Suc pos)) [] = (Inr terms, p3)" "f = Predicate (ts ! pos) terms"
    then show ?thesis
      using parse_terms_loop_success [of ts "Suc (Suc pos)" "[]" terms p3]
        term_from_names [OF assms(2)]
      by (auto simp: list_all_iff)
  qed simp
qed

lemma parse_formula_names:
  "parse_formula ts pos = (Inr f, p) \<Longrightarrow> cased_tokens_ident ts \<Longrightarrow> names_match f"
proof (induction rule: parse_formula_success_induct)
  case (paren pos p2 p4 left right f)
  then show ?case by auto
next
  case (neg pos g p)
  then show ?case by simp
next
  case (quant pos g p f)
  have "ts ! Suc pos \<in> set ts" using quant(2) by simp
  then have "lower_ident (ts ! Suc pos)"
    using quant(3) quant(8) by (auto simp: cased_tokens_ident_def)
  then show ?case using quant by auto
next
  case (pred pos f p)
  then show ?case using parse_predicate_names by blast
qed

lemma parse_term_names:
  assumes "parse_term ts pos = (Inr t, p)" and "cased_tokens_ident ts"
  shows "names_match t"
proof -
  from parse_term_success [OF assms(1)]
  have "pos < length ts" and "term_from (ts ! pos) t"
    by (auto simp: term_from_def)
  then show ?thesis using term_from_names [OF assms(2), of "ts ! pos" t] by simp
qed

lemma quantifier_variable_names:
  assumes "i < length ts" and "py_islower (ts ! i)" and "cased_tokens_ident ts"
  shows "names_match (Variable (ts ! i))"
  using assms nth_mem [of i ts] by (auto simp: cased_tokens_ident_def)

lemma parse_quantifier_names:
  assumes "parse_quantifier ts pos = (Inr f, p)" and "cased_tokens_ident ts"
  shows "names_match f"
proof -
  from parse_quantifier_success [OF assms(1)]
  obtain g where b: "Suc (Suc pos) < length ts" "py_islower (ts ! Suc pos)"
    and g: "parse_formula ts (Suc (Suc (Suc pos))) = (Inr g, p)"
    and f: "f = Forall (Variable (ts ! Suc pos)) g \<or> f = Exists (Variable (ts ! Suc pos)) g"
    by blast
  have v: "names_match (Variable (ts ! Suc pos))"
    using quantifier_variable_names [of "Suc pos" ts] b assms(2) by simp
  have "names_match g" using parse_formula_names [OF g assms(2)] .
  with v f show ?thesis by auto
qed

lemma ascii_is_ascii_cased: "of_char c < (128::nat) \<Longrightarrow> ascii_cased c"
  unfolding ascii_cased_def py_islower_char_def py_isupper_char_def az_lower_def az_upper_def
    Let_def
  by auto

text \<open>
  C5, as stated, fails: the constructors check nothing, and the productions test the
  case of a token with \<open>str.islower\<close> and \<open>str.isupper\<close>, which also accept characters
  outside ASCII. The text \<open>P(e)\<close> with the letter of code point 233, an e with acute
  accent, as argument parses, and the name of its \<open>Variable\<close> does not have the lowercase
  identifier shape.
\<close>

theorem non_ascii_name_counterexample:
  "parse_text [CHR ''P'', CHR ''('', CHR 0xE9, CHR '')''] =
     (Inr (Predicate ''P'' [Variable [CHR 0xE9]]), 4)
   \<and> \<not> lower_ident [CHR 0xE9]"
  by code_simp

text \<open>
  C5, amended. Let the text be one of code points below 256, the texts of this model,
  in which every character that \<open>str.islower\<close> or \<open>str.isupper\<close> accepts is an ASCII
  letter; every text of ASCII characters is such a text. Then in every node built
  during a parse of the text, successful or not, every \<open>Variable\<close> name is non-empty and
  has the shape \<open>[a-z][a-z0-9]*\<close>, and every \<open>Constant\<close> name is non-empty and has the
  shape \<open>[A-Z][A-Z0-9]*\<close>: in the node returned by any run of the term, predicate,
  quantifier or formula production, from any cursor, in the \<open>Variable\<close> node that the
  quantifier production builds from a token that passed \<open>var_name.islower()\<close>, before it
  reads the dot, and so in the formula that \<open>parse\<close> returns. This follows from the
  token pattern and the case tests of the two productions; the node constructors
  accept any name.
\<close>

theorem parsed_names_are_identifiers:
  "(list_all ascii_cased text \<longrightarrow>
      (\<forall>pos t p. parse_term (tokenize text) pos = (Inr t, p) \<longrightarrow> names_match t)
    \<and> (\<forall>pos f p. parse_predicate (tokenize text) pos = (Inr f, p) \<longrightarrow> names_match f)
    \<and> (\<forall>pos f p. parse_quantifier (tokenize text) pos = (Inr f, p) \<longrightarrow> names_match f)
    \<and> (\<forall>pos f p. parse_formula (tokenize text) pos = (Inr f, p) \<longrightarrow> names_match f)
    \<and> (\<forall>i < length (tokenize text). py_islower (tokenize text ! i) \<longrightarrow>
           names_match (Variable (tokenize text ! i)))
    \<and> (\<forall>f. fst (parse_text text) = Inr f \<longrightarrow> names_match f))
   \<and> (list_all (\<lambda>c. of_char c < (128::nat)) text \<longrightarrow> list_all ascii_cased text)"
proof (intro conjI impI)
  assume asc: "list_all ascii_cased text"
  have ci: "cased_tokens_ident (tokenize text)"
    unfolding cased_tokens_ident_def using token_cased_ident [OF asc] by blast
  show "\<forall>pos t p. parse_term (tokenize text) pos = (Inr t, p) \<longrightarrow> names_match t"
    using parse_term_names ci by blast
  show "\<forall>pos f p. parse_predicate (tokenize text) pos = (Inr f, p) \<longrightarrow> names_match f"
    using parse_predicate_names ci by blast
  show "\<forall>pos f p. parse_quantifier (tokenize text) pos = (Inr f, p) \<longrightarrow> names_match f"
    using parse_quantifier_names ci by blast
  show "\<forall>pos f p. parse_formula (tokenize text) pos = (Inr f, p) \<longrightarrow> names_match f"
    using parse_formula_names ci by blast
  show "\<forall>i < length (tokenize text). py_islower (tokenize text ! i) \<longrightarrow>
           names_match (Variable (tokenize text ! i))"
    using quantifier_variable_names ci by blast
  show "\<forall>f. fst (parse_text text) = Inr f \<longrightarrow> names_match f"
  proof (intro allI impI)
    fix f assume "fst (parse_text text) = Inr f"
    then obtain p where "parse_formula (tokenize text) 0 = (Inr f, p)"
      by (auto simp: parse_text_def parse_def split: prod.splits sum.splits if_splits)
    then show "names_match f" using parse_formula_names ci by blast
  qed
next
  assume "list_all (\<lambda>c. of_char c < (128::nat)) text"
  then show "list_all ascii_cased text"
    using ascii_is_ascii_cased by (simp add: list_all_iff)
qed

theorem parsed_names_are_identifiers_witness:
  "list_all ascii_cased ''forall x1. P(x1, A2''
   \<and> parse_text ''forall x1. P(x1, A2'' =
        (Inl (ParseError ''Expected ',' but found 'None' at position 8''), 8)
   \<and> parse_term (tokenize ''forall x1. P(x1, A2'') 7 = (Inr (Constant ''A2''), 8)
   \<and> names_match (Constant ''A2'')
   \<and> 1 < length (tokenize ''forall x1. P(x1, A2'')
   \<and> py_islower (tokenize ''forall x1. P(x1, A2'' ! 1)
   \<and> names_match (Variable (tokenize ''forall x1. P(x1, A2'' ! 1))
   \<and> fst (parse_text ''forall x1. P(x1, A2)'') =
       Inr (Forall (Variable ''x1'') (Predicate ''P'' [Variable ''x1'', Constant ''A2'']))
   \<and> names_match (Forall (Variable ''x1'') (Predicate ''P'' [Variable ''x1'', Constant ''A2'']))"
proof -
  have a: "list_all ascii_cased ''forall x1. P(x1, A2''" by code_simp
  have e: "parse_text ''forall x1. P(x1, A2'' =
        (Inl (ParseError ''Expected ',' but found 'None' at position 8''), 8)"
    by code_simp
  have t: "parse_term (tokenize ''forall x1. P(x1, A2'') 7 = (Inr (Constant ''A2''), 8)"
    by code_simp
  have l: "1 < length (tokenize ''forall x1. P(x1, A2'')" by code_simp
  have v: "py_islower (tokenize ''forall x1. P(x1, A2'' ! 1)" by code_simp
  have a2: "list_all ascii_cased ''forall x1. P(x1, A2)''" by code_simp
  have e2: "fst (parse_text ''forall x1. P(x1, A2)'') =
       Inr (Forall (Variable ''x1'') (Predicate ''P'' [Variable ''x1'', Constant ''A2'']))"
    by code_simp
  from parsed_names_are_identifiers [of "''forall x1. P(x1, A2''"] a t
  have n1: "names_match (Constant ''A2'')" by blast
  from parsed_names_are_identifiers [of "''forall x1. P(x1, A2''"] a l v
  have n2: "names_match (Variable (tokenize ''forall x1. P(x1, A2'' ! 1))" by blast
  from parsed_names_are_identifiers [of "''forall x1. P(x1, A2)''"] a2 e2
  have n3: "names_match (Forall (Variable ''x1'') (Predicate ''P'' [Variable ''x1'', Constant ''A2'']))"
    by blast
  from a e t n1 l v n2 e2 n3 show ?thesis by simp
qed

section \<open>Tokenizing a rendered formula\<close>

lemma tokenize_lex: "tokenize s = lex (spaced s)"
  by (simp add: tokenize_def lex_def spaced_def re_split_def Let_def)

lemma arrow_free_prefix: "arrow_free (xs @ ys) \<Longrightarrow> arrow_free xs"
  by (induction xs rule: arrow_free.induct) auto

lemma arrow_free_suffix: "arrow_free (xs @ ys) \<Longrightarrow> arrow_free ys"
proof (induction xs)
  case Nil
  then show ?case by simp
next
  case (Cons x xs)
  then show ?case by (cases "xs @ ys") auto
qed

lemma arrow_free_snoc:
  "arrow_free (xs @ [c]) \<Longrightarrow> \<not> (c = CHR ''-'' \<and> d = CHR ''>'') \<Longrightarrow> arrow_free (xs @ [c, d])"
  by (induction xs rule: arrow_free.induct) auto

lemma re_split_from_nonempty: "re_split_from piece s \<noteq> []"
  by (induction piece s rule: re_split_from.induct) (auto split: option.splits)

lemma match_group_arrow: "match_group (CHR ''-'' # CHR ''>'' # cs) \<noteq> None"
  by (simp add: az_lower_def az_upper_def)

lemma token_regex_match_arrow:
  assumes "token_regex_match (c # cs) = None"
  shows "\<not> (c = CHR ''-'' \<and> cs \<noteq> [] \<and> hd cs = CHR ''>'')"
proof
  assume a: "c = CHR ''-'' \<and> cs \<noteq> [] \<and> hd cs = CHR ''>''"
  then obtain ds where cs: "cs = CHR ''>'' # ds" by (cases cs) auto
  have "\<not> py_isspace_char (CHR ''-'')" by (simp add: py_isspace_char_def)
  then have "token_regex_match (CHR ''-'' # CHR ''>'' # ds) \<noteq> None"
    using match_group_arrow [of ds]
    by (simp add: token_regex_match_def del: match_group.simps split: option.splits)
  with assms a cs show False by simp
qed

lemma token_regex_match_skip:
  "py_isspace_char c \<Longrightarrow> token_regex_match (c # cs) = token_regex_match cs"
  by (simp add: token_regex_match_def)

lemma re_split_from_closed:
  "unmatched_piece piece \<Longrightarrow> arrow_free (piece @ take 1 s) \<Longrightarrow>
   (piece \<noteq> [] \<and> py_isspace_char (last piece) \<longrightarrow> token_regex_match s = None) \<Longrightarrow>
     (\<forall>t \<in> set (butlast (re_split_from piece s)). legal_token t \<or> closed_piece t)
     \<and> unmatched_piece (last (re_split_from piece s))"
proof (induction piece s rule: re_split_from.induct)
  case (1 piece)
  then show ?case by simp
next
  case (2 piece c cs)
  show ?case
  proof (cases "token_regex_match (c # cs)")
    case None
    have u: "unmatched_piece (piece @ [c])"
      using 2(3) token_regex_match_None [OF None] by (simp add: unmatched_piece_def)
    have af: "arrow_free ((piece @ [c]) @ take 1 cs)"
    proof (cases cs)
      case Nil
      then show ?thesis using 2(4) by simp
    next
      case (Cons d ds)
      then show ?thesis
        using 2(4) token_regex_match_arrow [OF None] arrow_free_snoc [of piece c d] by simp
    qed
    have j: "piece @ [c] \<noteq> [] \<and> py_isspace_char (last (piece @ [c])) \<longrightarrow>
               token_regex_match cs = None"
      using None token_regex_match_skip [of c cs] by simp
    show ?thesis using 2(1) [OF None u af j] None by simp
  next
    case (Some x)
    obtain g rest where x: "x = (g, rest)" by (cases x)
    have eq: "re_split_from piece (c # cs) = piece # g # re_split_from [] rest"
      using Some x by simp
    have g: "legal_token g" using token_regex_match_Some Some x by blast
    have p: "closed_piece piece"
      using 2(3) 2(4) 2(5) Some arrow_free_prefix [of piece "take 1 (c # cs)"]
      by (auto simp: closed_piece_def)
    have ih: "(\<forall>t \<in> set (butlast (re_split_from [] rest)). legal_token t \<or> closed_piece t)
       \<and> unmatched_piece (last (re_split_from [] rest))"
    proof (rule 2(2) [OF Some x [symmetric]])
      show "unmatched_piece []" by (simp add: unmatched_piece_def)
      show "arrow_free ([] @ take 1 rest)" by (cases rest) auto
      show "[] \<noteq> [] \<and> py_isspace_char (last []) \<longrightarrow> token_regex_match rest = None" by simp
    qed
    show ?thesis
      using eq g p ih re_split_from_nonempty [of "[]" rest] by auto
  qed
qed

lemma tokenize_closed:
  assumes "tokenize s \<noteq> []" and "legal_token (last (tokenize s))"
    and "\<not> unmatched_piece (last (tokenize s))"
  shows "\<forall>t \<in> set (tokenize s). legal_token t \<or> closed_piece t"
proof -
  let ?out = "re_split_from [] (spaced s)"
  let ?P = "\<lambda>t. t \<noteq> [] \<and> \<not> py_isspace t"
  have c: "(\<forall>t \<in> set (butlast ?out). legal_token t \<or> closed_piece t)
           \<and> unmatched_piece (last ?out)"
  proof (rule re_split_from_closed)
    show "unmatched_piece []" by (simp add: unmatched_piece_def)
    show "arrow_free ([] @ take 1 (spaced s))" by (cases "spaced s") auto
    show "[] \<noteq> [] \<and> py_isspace_char (last []) \<longrightarrow> token_regex_match (spaced s) = None"
      by simp
  qed
  have out: "?out = butlast ?out @ [last ?out]"
    using re_split_from_nonempty [of "[]" "spaced s"] by simp
  have tk: "tokenize s = filter ?P (butlast ?out) @ filter ?P [last ?out]"
    using out by (metis filter_append lex_def tokenize_lex)
  have "\<not> ?P (last ?out)"
  proof
    assume "?P (last ?out)"
    then have "last (tokenize s) = last ?out" using tk by simp
    then show False using assms(3) c by simp
  qed
  then have "tokenize s = filter ?P (butlast ?out)" using tk by simp
  then show ?thesis using c by auto
qed

lemma match_group_no_start:
  "\<not> starts_token c \<Longrightarrow> \<not> (c = CHR ''-'' \<and> cs \<noteq> [] \<and> hd cs = CHR ''>'') \<Longrightarrow>
     match_group (c # cs) = None"
  by (cases cs) (auto simp: starts_token_def)

lemma closed_no_match:
  assumes u: "unmatched_piece t" and ne: "t \<noteq> []" and l: "\<not> py_isspace_char (last t)"
    and af: "arrow_free (t @ take 1 k)"
  shows "token_regex_match (t @ k) = None"
proof -
  have ex: "\<exists>x \<in> set t. \<not> py_isspace_char x" using ne l last_in_set by blast
  then obtain x where x: "x \<in> set t" "\<not> py_isspace_char x" by blast
  have dw: "dropWhile py_isspace_char (t @ k) = dropWhile py_isspace_char t @ k"
    using x by (rule dropWhile_append1)
  have dne: "dropWhile py_isspace_char t \<noteq> []" using ex by (simp add: dropWhile_eq_Nil_conv)
  then obtain c u' where d: "dropWhile py_isspace_char t = c # u'"
    by (cases "dropWhile py_isspace_char t") auto
  have "c \<in> set t" using d by (metis list.set_intros(1) set_dropWhileD)
  then have ns: "\<not> starts_token c" using u by (simp add: unmatched_piece_def list_all_iff)
  have "arrow_free ((takeWhile py_isspace_char t @ dropWhile py_isspace_char t) @ take 1 k)"
    using af by simp
  then have "arrow_free (takeWhile py_isspace_char t @ (c # u' @ take 1 k))"
    using d by simp
  then have a2: "arrow_free (c # u' @ take 1 k)" by (rule arrow_free_suffix)
  have "\<not> (c = CHR ''-'' \<and> u' @ k \<noteq> [] \<and> hd (u' @ k) = CHR ''>'')"
  proof (cases u')
    case Nil
    then show ?thesis using a2 by (cases k) auto
  next
    case (Cons e es)
    then show ?thesis using a2 by auto
  qed
  then have "match_group (c # u' @ k) = None" using ns by (rule match_group_no_start [rotated])
  then show ?thesis using dw d by (simp add: token_regex_match_def del: match_group.simps)
qed

lemma closed_passed_over:
  "unmatched_piece t \<Longrightarrow> t = [] \<or> \<not> py_isspace_char (last t) \<Longrightarrow> arrow_free (t @ take 1 k) \<Longrightarrow>
     re_split_from piece (t @ k) = re_split_from (piece @ t) k"
proof (induction t arbitrary: piece)
  case Nil
  then show ?case by simp
next
  case (Cons c t)
  have nm: "token_regex_match ((c # t) @ k) = None"
    using closed_no_match [of "c # t" k] Cons.prems by simp
  have u: "unmatched_piece t" using Cons.prems(1) by (simp add: unmatched_piece_def)
  have l: "t = [] \<or> \<not> py_isspace_char (last t)" using Cons.prems(2) by (cases t) auto
  have af: "arrow_free (t @ take 1 k)"
    using Cons.prems(3) arrow_free_suffix [of "[c]" "t @ take 1 k"] by simp
  have "re_split_from piece ((c # t) @ k) = re_split_from (piece @ [c]) (t @ k)"
    using nm by simp
  also have "\<dots> = re_split_from ((piece @ [c]) @ t) k"
    using Cons.IH [OF u l af] .
  finally show ?case by simp
qed

lemma token_regex_match_dropWhile:
  "token_regex_match (dropWhile py_isspace_char k) = token_regex_match k"
  by (simp add: token_regex_match_def)

lemma re_split_from_match:
  "token_regex_match k = Some (g, rest) \<Longrightarrow>
     re_split_from piece k = piece # g # re_split_from [] rest"
proof (cases k)
  case Nil
  assume "token_regex_match k = Some (g, rest)"
  with Nil show ?thesis by (simp add: token_regex_match_def)
next
  case (Cons c cs)
  assume "token_regex_match k = Some (g, rest)"
  with Cons show ?thesis by simp
qed

lemma lex_dropWhile: "cont_ok k \<Longrightarrow> lex (dropWhile py_isspace_char k) = lex k"
proof (cases "token_regex_match k")
  case None
  assume "cont_ok k"
  with None show ?thesis by (simp add: cont_ok_def)
next
  case (Some x)
  obtain g rest where x: "x = (g, rest)" by (cases x)
  have "re_split_from [] (dropWhile py_isspace_char k) = [] # g # re_split_from [] rest"
    using Some x token_regex_match_dropWhile [of k] re_split_from_match by simp
  moreover have "re_split_from [] k = [] # g # re_split_from [] rest"
    using Some x re_split_from_match by simp
  ultimately show ?thesis by (simp add: lex_def)
qed

lemma az_not_space: "az_lower c \<or> az_upper c \<Longrightarrow> \<not> py_isspace_char c"
  unfolding az_lower_def az_upper_def py_isspace_char_def Let_def by auto

lemma punct_not_space: "t \<in> set punct_tokens \<Longrightarrow> t \<noteq> [] \<and> \<not> py_isspace_char (hd t)"
  unfolding punct_tokens_def py_isspace_char_def Let_def
  by (simp, elim disjE) simp_all

lemma legal_not_space:
  assumes "legal_token g"
  shows "g \<noteq> [] \<and> \<not> py_isspace_char (hd g)"
proof -
  from assms have "g \<in> set punct_tokens \<or> lower_ident g \<or> upper_ident g"
    by (simp only: legal_token_alt)
  then show ?thesis
    using punct_not_space [of g] az_not_space [of "hd g"]
    by (auto simp: lower_ident_def upper_ident_def)
qed

lemma keep_token: "g \<noteq> [] \<Longrightarrow> \<not> py_isspace_char (hd g) \<Longrightarrow> g \<noteq> [] \<and> \<not> py_isspace g"
  by (cases g) (auto simp: py_isspace_def)

lemma lex_match:
  assumes "token_regex_match k = Some (g, rest)"
  shows "lex k = g # lex rest"
proof -
  have "legal_token g" using token_regex_match_Some [OF assms] by simp
  then have "g \<noteq> [] \<and> \<not> py_isspace g" using legal_not_space keep_token by blast
  then show ?thesis using re_split_from_match [OF assms, of "[]"] by (simp add: lex_def)
qed

lemma sep_char_props:
  "sep_char c \<Longrightarrow> \<not> az_lower c \<and> \<not> az_upper c \<and> \<not> digit09 c \<and> c \<noteq> CHR ''>''"
  unfolding sep_char_def az_lower_def az_upper_def digit09_def Let_def by auto

lemma az_lower_chars:
  "az_lower c \<Longrightarrow> c \<noteq> CHR ''('' \<and> c \<noteq> CHR '')'' \<and> c \<noteq> CHR ''.'' \<and> \<not> az_upper c"
  unfolding az_lower_def az_upper_def Let_def by auto

lemma az_upper_chars:
  "az_upper c \<Longrightarrow> c \<noteq> CHR ''('' \<and> c \<noteq> CHR '')'' \<and> c \<noteq> CHR ''.'' \<and> \<not> az_lower c"
  unfolding az_lower_def az_upper_def Let_def by auto

lemma digit_chars: "digit09 c \<Longrightarrow> c \<noteq> CHR ''('' \<and> c \<noteq> CHR '')'' \<and> c \<noteq> CHR ''.''"
  unfolding digit09_def Let_def by auto

lemma takeWhile_stop:
  "list_all P cs \<Longrightarrow> k \<noteq> [] \<Longrightarrow> \<not> P (hd k) \<Longrightarrow>
     takeWhile P (cs @ k) = cs \<and> dropWhile P (cs @ k) = k"
  by (cases k) (auto simp: list_all_iff takeWhile_append2 dropWhile_append2)

lemma lower_ident_match:
  assumes id: "lower_ident t" and k: "k \<noteq> []" "sep_char (hd k)"
  shows "token_regex_match (t @ k) = Some (t, dropWhile py_isspace_char k)"
proof -
  obtain c cs where t: "t = c # cs" and c: "az_lower c"
    and cs: "list_all (\<lambda>x. az_lower x \<or> digit09 x) cs"
    using id by (cases t) (auto simp: lower_ident_def)
  have ns: "\<not> py_isspace_char c" using c az_not_space by blast
  have st: "takeWhile (\<lambda>x. az_lower x \<or> digit09 x) (cs @ k) = cs
            \<and> dropWhile (\<lambda>x. az_lower x \<or> digit09 x) (cs @ k) = k"
    using takeWhile_stop [OF cs k(1)] sep_char_props [OF k(2)] by simp
  have "match_group (c # cs @ k) = Some (c # cs, k)"
    using c az_lower_chars [OF c] st by simp
  then show ?thesis using t ns by (simp add: token_regex_match_def del: match_group.simps)
qed

lemma upper_ident_match:
  assumes id: "upper_ident t" and k: "k \<noteq> []" "sep_char (hd k)"
  shows "token_regex_match (t @ k) = Some (t, dropWhile py_isspace_char k)"
proof -
  obtain c cs where t: "t = c # cs" and c: "az_upper c"
    and cs: "list_all (\<lambda>x. az_upper x \<or> digit09 x) cs"
    using id by (cases t) (auto simp: upper_ident_def)
  have ns: "\<not> py_isspace_char c" using c az_not_space by blast
  have st: "takeWhile (\<lambda>x. az_upper x \<or> digit09 x) (cs @ k) = cs
            \<and> dropWhile (\<lambda>x. az_upper x \<or> digit09 x) (cs @ k) = k"
    using takeWhile_stop [OF cs k(1)] sep_char_props [OF k(2)] by simp
  have "match_group (c # cs @ k) = Some (c # cs, k)"
    using c az_upper_chars [OF c] st by simp
  then show ?thesis using t ns by (simp add: token_regex_match_def del: match_group.simps)
qed

lemma arrow_free_add: "arrow_free t \<Longrightarrow> d \<noteq> CHR ''>'' \<Longrightarrow> arrow_free (t @ [d])"
  by (induction t rule: arrow_free.induct) auto

lemma lex_name:
  assumes sn: "stable_name t" and k: "k \<noteq> []" "sep_char (hd k)"
    and m: "token_regex_match k \<noteq> None"
  shows "lex (t @ k) = t # lex k"
proof -
  have co: "cont_ok k" using m by (simp add: cont_ok_def)
  from sn have "lower_ident t \<or> upper_ident t \<or> closed_piece t"
    by (simp add: stable_name_def)
  then show ?thesis
  proof (elim disjE)
    assume "lower_ident t"
    from lex_match [OF lower_ident_match [OF this k]] lex_dropWhile [OF co]
    show ?thesis by simp
  next
    assume "upper_ident t"
    from lex_match [OF upper_ident_match [OF this k]] lex_dropWhile [OF co]
    show ?thesis by simp
  next
    assume cp: "closed_piece t"
    obtain d ds where kk: "k = d # ds" using k(1) by (cases k) auto
    have d: "d \<noteq> CHR ''>''" using k(2) kk sep_char_props by auto
    have af: "arrow_free (t @ take 1 k)"
      using cp kk arrow_free_add [OF _ d] by (simp add: closed_piece_def)
    have po: "re_split_from [] (t @ k) = re_split_from ([] @ t) k"
      using cp af by (intro closed_passed_over) (auto simp: closed_piece_def)
    obtain g rest where gr: "token_regex_match k = Some (g, rest)" using m by auto
    have keep: "t \<noteq> [] \<and> \<not> py_isspace t"
      using sn keep_token by (simp add: stable_name_def)
    have "lex (t @ k) = filter (\<lambda>t. t \<noteq> [] \<and> \<not> py_isspace t) (t # g # re_split_from [] rest)"
      using po re_split_from_match [OF gr, of t] by (simp add: lex_def)
    also have "\<dots> = t # filter (\<lambda>t. t \<noteq> [] \<and> \<not> py_isspace t) ([] # g # re_split_from [] rest)"
      using keep by simp
    also have "\<dots> = t # lex k"
      using re_split_from_match [OF gr, of "[]"] by (simp add: lex_def)
    finally show ?thesis .
  qed
qed

lemma spaced_append: "spaced (a @ b) = spaced a @ spaced b"
  by (simp add: spaced_def str_replace_def)

lemma spaced_plain:
  "\<forall>c \<in> set t. c \<noteq> CHR ''('' \<and> c \<noteq> CHR '')'' \<and> c \<noteq> CHR ''.'' \<Longrightarrow> spaced t = t"
  unfolding spaced_def str_replace_def by (induction t) auto

lemma stable_name_plain: "stable_name t \<Longrightarrow> spaced t = t"
proof (rule spaced_plain)
  assume sn: "stable_name t"
  show "\<forall>c \<in> set t. c \<noteq> CHR ''('' \<and> c \<noteq> CHR '')'' \<and> c \<noteq> CHR ''.''"
  proof
    fix c assume c: "c \<in> set t"
    from sn have "lower_ident t \<or> upper_ident t \<or> closed_piece t"
      by (simp add: stable_name_def)
    then show "c \<noteq> CHR ''('' \<and> c \<noteq> CHR '')'' \<and> c \<noteq> CHR ''.''"
    proof (elim disjE)
      assume "lower_ident t"
      then have "az_lower c \<or> digit09 c" using c
        by (cases t) (auto simp: lower_ident_def list_all_iff)
      then show ?thesis using az_lower_chars digit_chars by blast
    next
      assume "upper_ident t"
      then have "az_upper c \<or> digit09 c" using c
        by (cases t) (auto simp: upper_ident_def list_all_iff)
      then show ?thesis using az_upper_chars digit_chars by blast
    next
      assume "closed_piece t"
      then have "\<not> starts_token c" using c
        by (simp add: closed_piece_def unmatched_piece_def list_all_iff)
      then show ?thesis by (auto simp: starts_token_def)
    qed
  qed
qed

lemma sep_matches:
  "token_regex_match ('' ( '' @ x) = Some (''('', dropWhile py_isspace_char x)"
  "token_regex_match ('' ) '' @ x) = Some ('')'', dropWhile py_isspace_char x)"
  "token_regex_match ('', '' @ x) = Some ('','', dropWhile py_isspace_char x)"
  "token_regex_match ('' & '' @ x) = Some (''&'', dropWhile py_isspace_char x)"
  "token_regex_match ('' | '' @ x) = Some (''|'', dropWhile py_isspace_char x)"
  "token_regex_match ('' -> '' @ x) = Some (''->'', dropWhile py_isspace_char x)"
  by (simp_all add: token_regex_match_def py_isspace_char_def az_lower_def az_upper_def)

lemma spaced_literals:
  "spaced ''('' = '' ( ''" "spaced '')'' = '' ) ''" "spaced '', '' = '', ''"
  "spaced '' & '' = '' & ''" "spaced '' | '' = '' | ''" "spaced '' -> '' = '' -> ''"
  by (simp_all add: spaced_def str_replace_def)

section \<open>The token list\<close>

lemma no_match_in_Nil: "no_match_in [] k"
  by (simp add: no_match_in_def)

lemma no_match_in_Cons:
  "no_match_in (c # p) k = (token_regex_match (c # p @ k) = None \<and> no_match_in p k)"
proof
  assume a: "no_match_in (c # p) k"
  have "token_regex_match (c # p @ k) = None"
    using a [unfolded no_match_in_def, rule_format, of 0] by simp
  moreover have "no_match_in p k"
    unfolding no_match_in_def
  proof (intro allI impI)
    fix i assume "i < length p"
    then show "token_regex_match (drop i p @ k) = None"
      using a [unfolded no_match_in_def, rule_format, of "Suc i"] by simp
  qed
  ultimately show "token_regex_match (c # p @ k) = None \<and> no_match_in p k" by simp
next
  assume a: "token_regex_match (c # p @ k) = None \<and> no_match_in p k"
  show "no_match_in (c # p) k"
    unfolding no_match_in_def
  proof (intro allI impI)
    fix i assume i: "i < length (c # p)"
    show "token_regex_match (drop i (c # p) @ k) = None"
    proof (cases i)
      case 0
      then show ?thesis using a by simp
    next
      case (Suc j)
      then show ?thesis using a i by (simp add: no_match_in_def)
    qed
  qed
qed

lemma no_match_in_snoc:
  "no_match_in p (c # k) \<Longrightarrow> token_regex_match (c # k) = None \<Longrightarrow> no_match_in (p @ [c]) k"
  by (induction p) (simp_all add: no_match_in_Cons no_match_in_Nil)

lemma re_split_from_split:
  "no_match_in piece s \<Longrightarrow> split_of (piece @ s) (re_split_from piece s)"
proof (induction piece s rule: re_split_from.induct)
  case (1 piece)
  then show ?case by simp
next
  case (2 piece c cs)
  show ?case
  proof (cases "token_regex_match (c # cs)")
    case None
    have "no_match_in (piece @ [c]) cs" using 2(3) None by (rule no_match_in_snoc)
    then show ?thesis using 2(1) [OF None] None by simp
  next
    case (Some x)
    obtain g rest where x: "x = (g, rest)" by (cases x)
    have "split_of ([] @ rest) (re_split_from [] rest)"
      using 2(2) [OF Some x [symmetric]] by (simp add: no_match_in_Nil)
    then show ?thesis using Some x 2(3) by simp
  qed
qed

lemma no_match_passed_over:
  "no_match_in p k \<Longrightarrow> re_split_from acc (p @ k) = re_split_from (acc @ p) k"
proof (induction p arbitrary: acc)
  case Nil
  then show ?case by simp
next
  case (Cons c p)
  then have n: "token_regex_match (c # p @ k) = None" and r: "no_match_in p k"
    by (simp_all add: no_match_in_Cons)
  have "re_split_from acc ((c # p) @ k) = re_split_from (acc @ [c]) (p @ k)"
    using n by simp
  also have "\<dots> = re_split_from ((acc @ [c]) @ p) k" using Cons.IH [OF r] .
  finally show ?case by simp
qed

lemma split_of_unique: "split_of s out \<Longrightarrow> out = re_split_from [] s"
proof (induction s out rule: split_of.induct)
  case (1 s)
  then show ?case by simp
next
  case (2 s p)
  then show ?case using no_match_passed_over [of p "[]" "[]"] by simp
next
  case (3 s p g out)
  let ?m = "drop (length p) s"
  from 3(2) have tk: "take (length p) s = p" and nm: "no_match_in p ?m" by simp_all
  from 3(2) obtain rest where m: "token_regex_match ?m = Some (g, rest)"
    and so: "split_of rest out"
    by (auto split: option.splits)
  have s: "s = p @ ?m" using tk by (metis append_take_drop_id)
  have "out = re_split_from [] rest" using 3(1) [OF m refl so] .
  moreover have "re_split_from [] (p @ ?m) = re_split_from ([] @ p) ?m"
    using nm by (rule no_match_passed_over)
  moreover have "re_split_from p ?m = p # g # re_split_from [] rest"
    using m by (rule re_split_from_match)
  ultimately show ?case using s by simp
qed

lemma no_match_unmatched: "no_match_in p k \<Longrightarrow> unmatched_piece p"
proof (induction p)
  case Nil
  then show ?case by (simp add: unmatched_piece_def)
next
  case (Cons c p)
  then show ?case
    using token_regex_match_None [of c "p @ k"]
    by (simp add: no_match_in_Cons unmatched_piece_def)
qed

lemma no_match_arrow_free: "no_match_in p k \<Longrightarrow> arrow_free p"
proof (induction p rule: arrow_free.induct)
  case (1 c d cs)
  then have n: "token_regex_match (c # (d # cs) @ k) = None" and r: "no_match_in (d # cs) k"
    by (simp_all add: no_match_in_Cons)
  have "\<not> (c = CHR ''-'' \<and> d = CHR ''>'')"
    using token_regex_match_arrow [OF n] by simp
  then show ?case using 1(1) [OF r] by simp
qed simp_all

lemma split_of_alternates: "split_of s out \<Longrightarrow> alternates out"
proof (induction s out rule: split_of.induct)
  case (1 s)
  then show ?case by simp
next
  case (2 s p)
  then show ?case using no_match_unmatched no_match_arrow_free by auto
next
  case (3 s p g out)
  let ?m = "drop (length p) s"
  from 3(2) have nm: "no_match_in p ?m" by simp
  from 3(2) obtain rest where m: "token_regex_match ?m = Some (g, rest)"
    and so: "split_of rest out"
    by (auto split: option.splits)
  have "legal_token g" using token_regex_match_Some [OF m] by simp
  then show ?case
    using 3(1) [OF m refl so] no_match_unmatched [OF nm] no_match_arrow_free [OF nm] by simp
qed

lemma legal_kept: "legal_token g \<Longrightarrow> g \<noteq> [] \<and> \<not> py_isspace g"
  using legal_not_space keep_token by blast

lemma alternates_separated:
  "alternates out \<Longrightarrow>
     separated (filter (\<lambda>t. t \<noteq> [] \<and> \<not> py_isspace t) out)
     \<and> (\<forall>g0. legal_token g0 \<longrightarrow>
           separated (g0 # filter (\<lambda>t. t \<noteq> [] \<and> \<not> py_isspace t) out))"
proof (induction out rule: alternates.induct)
  case 1
  then show ?case by simp
next
  case (2 p)
  then show ?case by simp
next
  case (3 p g out)
  then have g: "legal_token g" and ih: "separated (g # filter (\<lambda>t. t \<noteq> [] \<and> \<not> py_isspace t) out)"
    by simp_all
  show ?case using g ih legal_kept [OF g] by simp
qed

lemma alternates_tokens:
  "alternates out \<Longrightarrow> t \<in> set out \<Longrightarrow> legal_token t \<or> (unmatched_piece t \<and> arrow_free t)"
  by (induction out rule: alternates.induct) auto

text \<open>
  C2, as stated, fails: \<open>re.split\<close> returns the text between two matches too, and the
  filter removes only the empty and the all-whitespace pieces. In \<open>P(x_1)\<close> the
  unmatched \<open>_1\<close> is a token of its own, and the parser fails on it.
\<close>

theorem unmatched_dropped_counterexample:
  "tokenize ''P(x_1)'' = [''P'', ''('', ''x'', ''_1'', '')'']
   \<and> \<not> legal_token ''_1''
   \<and> parse_text ''P(x_1)'' =
        (Inl (ParseError ''Expected ',' but found '_1' at position 3''), 3)"
  by code_simp

text \<open>
  C2, amended. Tokenization is total and never fails, and a character sequence that
  matches no lexical rule is not dropped. The text with spaces put around every
  parenthesis and dot is cut at the matches of the token pattern, each of them the
  first match that begins at or after the end of the one before; the split consists,
  in order, of the stretch of text in front of each match, in which no match begins,
  followed by the token matched, and of the stretch after the last match, and it is
  the only list of this kind. The token list is the split without its empty and its
  all-whitespace elements. So every stretch with a character that is not whitespace
  is kept whole, as one token, in its place: between two such tokens there is always
  a matched token. Every token is non-empty, not all whitespace, and either of a legal
  shape (one of \<open>(\<close>, \<open>)\<close>, \<open>.\<close>, \<open>,\<close>, \<open>~\<close>, \<open>&\<close>, \<open>|\<close>, \<open>->\<close>, a lowercase or an
  uppercase identifier) or a stretch with none of the characters that begin a token
  and without \<open>->\<close>. The tokens, concatenated and without their whitespace characters,
  are the text without its whitespace characters.
\<close>

theorem tokenize_keeps_unmatched:
  "tokenize text = filter (\<lambda>t. t \<noteq> [] \<and> \<not> py_isspace t) (re_split (spaced text))
   \<and> split_of (spaced text) (re_split (spaced text))
   \<and> (\<forall>out. split_of (spaced text) out \<longrightarrow> out = re_split (spaced text))
   \<and> (\<forall>t \<in> set (tokenize text).
         t \<noteq> [] \<and> \<not> py_isspace t \<and> (legal_token t \<or> (unmatched_piece t \<and> arrow_free t)))
   \<and> separated (tokenize text)
   \<and> filter (\<lambda>c. \<not> py_isspace_char c) (concat (tokenize text))
       = filter (\<lambda>c. \<not> py_isspace_char c) text"
proof -
  let ?out = "re_split (spaced text)"
  have tk: "tokenize text = filter (\<lambda>t. t \<noteq> [] \<and> \<not> py_isspace t) ?out"
    by (simp add: tokenize_def spaced_def Let_def)
  have sp: "split_of (spaced text) ?out"
    using re_split_from_split [OF no_match_in_Nil, of "spaced text"] by (simp add: re_split_def)
  have un: "\<forall>out. split_of (spaced text) out \<longrightarrow> out = ?out"
    using split_of_unique by (simp add: re_split_def)
  have al: "alternates ?out" using sp by (rule split_of_alternates)
  have el: "\<forall>t \<in> set (tokenize text).
         t \<noteq> [] \<and> \<not> py_isspace t \<and> (legal_token t \<or> (unmatched_piece t \<and> arrow_free t))"
    using alternates_tokens [OF al] by (auto simp: tk)
  have se: "separated (tokenize text)"
    using alternates_separated [OF al] by (simp add: tk)
  show ?thesis using tk sp un el se tokenize_characters [of "text"] by blast
qed

theorem tokenize_keeps_unmatched_witness:
  "re_split (spaced ''P(x_1)'') = [[], ''P'', [], ''('', [], ''x'', ''_1'', '')'', []]
   \<and> split_of (spaced ''P(x_1)'') [[], ''P'', [], ''('', [], ''x'', ''_1'', '')'', []]
   \<and> ''_1'' \<in> set (tokenize ''P(x_1)'')
   \<and> \<not> legal_token ''_1'' \<and> unmatched_piece ''_1'' \<and> arrow_free ''_1''"
proof -
  have r: "re_split (spaced ''P(x_1)'') = [[], ''P'', [], ''('', [], ''x'', ''_1'', '')'', []]"
    by code_simp
  have m: "''_1'' \<in> set (tokenize ''P(x_1)'')" by code_simp
  have n: "\<not> legal_token ''_1''" by code_simp
  from tokenize_keeps_unmatched [of "''P(x_1)''"]
  have s: "split_of (spaced ''P(x_1)'') (re_split (spaced ''P(x_1)''))" by blast
  from tokenize_keeps_unmatched [of "''P(x_1)''"] m n
  have u: "unmatched_piece ''_1'' \<and> arrow_free ''_1''" by blast
  from r s m n u show ?thesis by simp
qed

section \<open>Parsing a rendering again\<close>

lemma drop_peek: "peek ts p = Some t \<Longrightarrow> drop p ts = t # drop (Suc p) ts"
  using peek_Some [of ts p t] by (simp add: Cons_nth_drop_Suc)

lemma drop_nth: "p < length ts \<Longrightarrow> drop p ts = ts ! p # drop (Suc p) ts"
  by (simp add: Cons_nth_drop_Suc)

lemma parse_predicate_tokens:
  assumes "parse_predicate ts pos = (Inr f, p)"
  shows "drop pos ts = tokens_of f @ drop p ts"
proof -
  from parse_predicate_success [OF assms] have lt: "pos < length ts"
    and lp: "peek ts (Suc pos) = Some ''(''"
    and alt: "(peek ts (Suc (Suc pos)) = Some '')'' \<and> f = Predicate (ts ! pos) []
                \<and> p = Suc (Suc (Suc pos))) \<or>
      (peek ts (Suc (Suc pos)) \<noteq> Some '')'' \<and>
       (\<exists>terms p3. parse_terms_loop ts (Suc (Suc pos)) [] = (Inr terms, p3) \<and>
          peek ts p3 = Some '')'' \<and> f = Predicate (ts ! pos) terms \<and> p = Suc p3))"
    by blast+
  have d0: "drop pos ts = ts ! pos # ''('' # drop (Suc (Suc pos)) ts"
    using drop_nth [OF lt] drop_peek [OF lp] by simp
  from alt show ?thesis
  proof
    assume a: "peek ts (Suc (Suc pos)) = Some '')'' \<and> f = Predicate (ts ! pos) []
                \<and> p = Suc (Suc (Suc pos))"
    then show ?thesis using d0 drop_peek [of ts "Suc (Suc pos)" "'')''"] by simp
  next
    assume "peek ts (Suc (Suc pos)) \<noteq> Some '')'' \<and>
       (\<exists>terms p3. parse_terms_loop ts (Suc (Suc pos)) [] = (Inr terms, p3) \<and>
          peek ts p3 = Some '')'' \<and> f = Predicate (ts ! pos) terms \<and> p = Suc p3)"
    then obtain terms p3 where lo: "parse_terms_loop ts (Suc (Suc pos)) [] = (Inr terms, p3)"
      and rp: "peek ts p3 = Some '')''" and f: "f = Predicate (ts ! pos) terms" and p: "p = Suc p3"
      by blast
    from parse_terms_loop_success [OF lo]
    have "drop (Suc (Suc pos)) ts = term_tokens terms @ drop p3 ts" by auto
    then show ?thesis using d0 drop_peek [OF rp] f p by simp
  qed
qed

lemma parse_formula_tokens:
  "parse_formula ts pos = (Inr f, p) \<Longrightarrow> drop pos ts = tokens_of f @ drop p ts"
proof (induction rule: parse_formula_success_induct)
  case (paren pos p2 p4 left right f)
  have "drop pos ts = ''('' # tokens_of left @ ts ! p2 # tokens_of right @ '')'' # drop (Suc p4) ts"
    using drop_peek [OF paren(1)] paren(7) drop_nth [OF paren(3)] paren(8) drop_peek [OF paren(5)]
    by simp
  then show ?case using paren(6) by auto
next
  case (neg pos g p)
  then show ?case using drop_peek [OF neg(1)] by simp
next
  case (quant pos g p f)
  have lt: "pos < length ts" "Suc pos < length ts" using quant(2) by simp_all
  have "drop pos ts = ts ! pos # ts ! Suc pos # ''.'' # tokens_of g @ drop p ts"
    using drop_nth [OF lt(1)] drop_nth [OF lt(2)] drop_nth [OF quant(2)] quant(4) quant(7)
    by simp
  then show ?case using quant(6) by auto
next
  case (pred pos f p)
  then show ?case using parse_predicate_tokens by blast
qed

lemma cased_not_space:
  "py_isupper_char c \<or> py_islower_char c \<Longrightarrow> \<not> py_isspace_char c"
  unfolding py_isupper_char_def py_islower_char_def py_isspace_char_def Let_def by auto

lemma cased_token_stable:
  assumes "legal_token t \<or> closed_piece t" and "t \<noteq> []"
    and "py_isupper_char (hd t) \<or> py_islower_char (hd t)"
  shows "stable_name t"
proof -
  have ns: "\<not> py_isspace_char (hd t)" using assms(3) cased_not_space by blast
  from assms(1) show ?thesis
  proof
    assume "legal_token t"
    then have "lower_ident t \<or> upper_ident t" using legal_cased_head assms(3) by blast
    then show ?thesis using assms(2) ns by (auto simp: stable_name_def)
  next
    assume "closed_piece t"
    then show ?thesis using assms(2) ns by (simp add: stable_name_def)
  qed
qed

lemma parse_predicate_stable:
  assumes pp: "parse_predicate ts pos = (Inr f, p)"
    and cl: "\<forall>t \<in> set ts. legal_token t \<or> closed_piece t"
    and nm: "ts ! pos \<noteq> []" "py_isupper_char (hd (ts ! pos))"
  shows "stable_formula f"
proof -
  from parse_predicate_success [OF pp] have lt: "pos < length ts" by simp
  then have "ts ! pos \<in> set ts" by simp
  then have sn: "stable_name (ts ! pos)" using cased_token_stable cl nm by blast
  have st: "\<And>tok t. tok \<in> set ts \<Longrightarrow> term_from tok t \<Longrightarrow> stable_term t"
  proof -
    fix tok t assume "tok \<in> set ts" and tf: "term_from tok t"
    then have "stable_name tok" using cased_token_stable [of tok] cl
      by (auto simp: term_from_def)
    then show "stable_term t" using tf by (auto simp: term_from_def)
  qed
  from parse_predicate_success [OF pp] show ?thesis
  proof (elim conjE disjE exE)
    fix terms p3
    assume "parse_terms_loop ts (Suc (Suc pos)) [] = (Inr terms, p3)" "f = Predicate (ts ! pos) terms"
    then show ?thesis
      using parse_terms_loop_success [of ts "Suc (Suc pos)" "[]" terms p3] st sn
      by (auto simp: list_all_iff)
  qed (simp add: sn)
qed

lemma parse_formula_stable:
  "parse_formula ts pos = (Inr f, p) \<Longrightarrow> \<forall>t \<in> set ts. legal_token t \<or> closed_piece t \<Longrightarrow>
     connectives_only f \<Longrightarrow> stable_formula f"
proof (induction rule: parse_formula_success_induct)
  case (paren pos p2 p4 left right f)
  then show ?case by auto
next
  case (neg pos g p)
  then show ?case by simp
next
  case (quant pos g p f)
  then show ?case by auto
next
  case (pred pos f p)
  then show ?case using parse_predicate_stable by blast
qed

lemma cont_ok_seps:
  "cont_ok ('' ( '' @ x)" "cont_ok ('' ) '' @ x)" "cont_ok ('', '' @ x)"
  "cont_ok ('' & '' @ x)" "cont_ok ('' | '' @ x)" "cont_ok ('' -> '' @ x)"
  unfolding cont_ok_def using sep_matches [of x] by simp_all

lemma lex_seps:
  "lex ('' ( '' @ x) = ''('' # lex (dropWhile py_isspace_char x)"
  "lex ('' ) '' @ x) = '')'' # lex (dropWhile py_isspace_char x)"
  "lex ('', '' @ x) = '','' # lex (dropWhile py_isspace_char x)"
  "lex ('' & '' @ x) = ''&'' # lex (dropWhile py_isspace_char x)"
  "lex ('' | '' @ x) = ''|'' # lex (dropWhile py_isspace_char x)"
  "lex ('' -> '' @ x) = ''->'' # lex (dropWhile py_isspace_char x)"
  using sep_matches [of x] by (simp_all only: lex_match)

lemma lex_close: "cont_ok k \<Longrightarrow> lex ('' ) '' @ k) = '')'' # lex k"
  using lex_seps(2) [of k] lex_dropWhile [of k] by simp

lemma spaced_Cons:
  "spaced [] = []"
  "spaced (CHR ''('' # s) = '' ( '' @ spaced s"
  "spaced (CHR '')'' # s) = '' ) '' @ spaced s"
  "spaced (CHR ''.'' # s) = '' . '' @ spaced s"
  "c \<noteq> CHR ''('' \<Longrightarrow> c \<noteq> CHR '')'' \<Longrightarrow> c \<noteq> CHR ''.'' \<Longrightarrow> spaced (c # s) = c # spaced s"
  by (simp_all add: spaced_def str_replace_def)

lemmas sep_matches_n = sep_matches [simplified]
lemmas cont_ok_seps_n = cont_ok_seps [simplified]
lemmas lex_seps_n = lex_seps [simplified]
lemmas lex_close_n = lex_close [simplified]

lemma stable_term_repr: "stable_term t \<Longrightarrow> stable_name (repr t) \<and> tokens_of t = [repr t]"
  by (cases t) auto

lemma dropWhile_head: "x \<noteq> [] \<Longrightarrow> \<not> P (hd x) \<Longrightarrow> dropWhile P (x @ y) = x @ y"
  by (cases x) auto

lemma lex_terms:
  "list_all stable_term terms \<Longrightarrow> terms \<noteq> [] \<Longrightarrow> cont_ok k \<Longrightarrow>
     lex (spaced (join_strs '', '' (map repr terms)) @ '' ) '' @ k)
       = term_tokens terms @ '')'' # lex k"
proof (induction terms rule: term_tokens.induct)
  case 1
  then show ?case by simp
next
  case (2 t)
  then have sn: "stable_name (repr t)" using stable_term_repr by simp
  have "lex (repr t @ '' ) '' @ k) = repr t # lex ('' ) '' @ k)"
    by (rule lex_name [OF sn]) (simp_all add: sep_char_def sep_matches_n)
  then show ?case using stable_name_plain [OF sn] lex_close_n [OF 2(3)] by simp
next
  case (3 t u us)
  then have sn: "stable_name (repr t)" and su: "stable_name (repr u)"
    using stable_term_repr by simp_all
  let ?rest = "spaced (join_strs '', '' (map repr (u # us))) @ '' ) '' @ k"
  have hd_rest: "\<exists>y. ?rest = repr u @ y"
    using stable_name_plain [OF su] by (cases us) (simp_all add: spaced_append spaced_Cons)
  then obtain y where y: "?rest = repr u @ y" by blast
  have dw: "dropWhile py_isspace_char ?rest = ?rest"
    unfolding y using su by (intro dropWhile_head) (simp_all add: stable_name_def)
  have ih: "lex ?rest = term_tokens (u # us) @ '')'' # lex k"
    using 3 by simp
  have "lex (repr t @ '', '' @ ?rest) = repr t # lex ('', '' @ ?rest)"
    by (rule lex_name [OF sn]) (simp_all add: sep_char_def sep_matches_n)
  also have "\<dots> = repr t # '','' # lex ?rest"
    using lex_seps(3) [of ?rest] dw by simp
  finally have "lex (repr t @ '', '' @ ?rest) = repr t # '','' # term_tokens (u # us) @ '')'' # lex k"
    using ih by simp
  then show ?case
    using stable_name_plain [OF sn] by (simp add: spaced_append spaced_Cons)
qed

lemma lex_predicate:
  assumes sn: "stable_name name" and st: "list_all stable_term terms" and k: "cont_ok k"
  shows "lex (spaced (repr (Predicate name terms)) @ k) = tokens_of (Predicate name terms) @ lex k"
proof -
  let ?args = "spaced (join_strs '', '' (map repr terms)) @ '' ) '' @ k"
  have sp: "spaced (repr (Predicate name terms)) @ k = name @ '' ( '' @ ?args"
    using stable_name_plain [OF sn] by (simp add: spaced_append spaced_Cons)
  have "lex (name @ '' ( '' @ ?args) = name # lex ('' ( '' @ ?args)"
    by (rule lex_name [OF sn]) (simp_all add: sep_char_def sep_matches_n)
  also have "\<dots> = name # ''('' # lex (dropWhile py_isspace_char ?args)"
    using lex_seps(1) [of ?args] by simp
  also have "lex (dropWhile py_isspace_char ?args) = term_tokens terms @ '')'' # lex k"
  proof (cases terms)
    case Nil
    have "lex (dropWhile py_isspace_char ('' ) '' @ k)) = lex ('' ) '' @ k)"
      by (rule lex_dropWhile) (rule cont_ok_seps)
    then show ?thesis using Nil lex_close [OF k] by (simp add: spaced_def str_replace_def)
  next
    case (Cons t us)
    then have "stable_name (repr t)" using st stable_term_repr by simp
    moreover have "\<exists>y. ?args = repr t @ y"
      using Cons stable_name_plain [OF calculation] by (cases us) (simp_all add: spaced_append spaced_Cons)
    ultimately have "dropWhile py_isspace_char ?args = ?args"
      using dropWhile_head [of "repr t" py_isspace_char] by (auto simp: stable_name_def)
    then show ?thesis using lex_terms [OF st _ k] Cons by simp
  qed
  finally show ?thesis using sp by simp
qed

lemma lex_binary:
  assumes l: "\<And>k. cont_ok k \<Longrightarrow>
        lex (dropWhile py_isspace_char (spaced (repr l) @ k)) = tokens_of l @ lex k"
    and r: "\<And>k. cont_ok k \<Longrightarrow>
        lex (dropWhile py_isspace_char (spaced (repr r) @ k)) = tokens_of r @ lex k"
    and k: "cont_ok k"
    and op: "token_regex_match (sop @ spaced (repr r) @ '' ) '' @ k)
               = Some (op, dropWhile py_isspace_char (spaced (repr r) @ '' ) '' @ k))"
  shows "lex ('' ( '' @ spaced (repr l) @ sop @ spaced (repr r) @ '' ) '' @ k)
           = ''('' # tokens_of l @ op # tokens_of r @ '')'' # lex k"
proof -
  let ?k2 = "'' ) '' @ k"
  let ?k1 = "sop @ spaced (repr r) @ ?k2"
  have c1: "cont_ok ?k1" using op by (simp add: cont_ok_def)
  have c2: "cont_ok ?k2" by (rule cont_ok_seps)
  have "lex ('' ( '' @ spaced (repr l) @ ?k1)
          = ''('' # lex (dropWhile py_isspace_char (spaced (repr l) @ ?k1))"
    by (rule lex_seps)
  also have "\<dots> = ''('' # tokens_of l @ lex ?k1" using l [OF c1] by simp
  also have "lex ?k1 = op # lex (dropWhile py_isspace_char (spaced (repr r) @ ?k2))"
    using op by (rule lex_match)
  also have "lex (dropWhile py_isspace_char (spaced (repr r) @ ?k2)) = tokens_of r @ lex ?k2"
    using r [OF c2] .
  also have "lex ?k2 = '')'' # lex k" using lex_close [OF k] .
  finally show ?thesis by simp
qed

lemma lex_rendering:
  "stable_formula f \<Longrightarrow> cont_ok k \<Longrightarrow>
     lex (dropWhile py_isspace_char (spaced (repr f) @ k)) = tokens_of f @ lex k"
proof (induction f arbitrary: k)
  case (Predicate name terms)
  then have sn: "stable_name name" and st: "list_all stable_term terms" by simp_all
  have "\<exists>y. spaced (repr (Predicate name terms)) @ k = name @ y"
    using stable_name_plain [OF sn] by (simp add: spaced_append)
  then have "dropWhile py_isspace_char (spaced (repr (Predicate name terms)) @ k)
               = spaced (repr (Predicate name terms)) @ k"
    using dropWhile_head [of name py_isspace_char] sn by (auto simp: stable_name_def)
  then show ?case using lex_predicate [OF sn st Predicate(3)] by simp
next
  case (Conjunction l r)
  let ?x = "'' ( '' @ spaced (repr l) @ '' & '' @ spaced (repr r) @ '' ) '' @ k"
  have sp: "spaced (repr (Conjunction l r)) @ k = ?x"
    by (simp add: spaced_append spaced_Cons)
  have "lex (dropWhile py_isspace_char ?x) = lex ?x"
    by (rule lex_dropWhile) (rule cont_ok_seps)
  also have "\<dots> = ''('' # tokens_of l @ ''&'' # tokens_of r @ '')'' # lex k"
    using Conjunction by (intro lex_binary) (simp_all add: sep_matches_n)
  finally show ?case using sp by simp
next
  case (Disjunction l r)
  let ?x = "'' ( '' @ spaced (repr l) @ '' | '' @ spaced (repr r) @ '' ) '' @ k"
  have sp: "spaced (repr (Disjunction l r)) @ k = ?x"
    by (simp add: spaced_append spaced_Cons)
  have "lex (dropWhile py_isspace_char ?x) = lex ?x"
    by (rule lex_dropWhile) (rule cont_ok_seps)
  also have "\<dots> = ''('' # tokens_of l @ ''|'' # tokens_of r @ '')'' # lex k"
    using Disjunction by (intro lex_binary) (simp_all add: sep_matches_n)
  finally show ?case using sp by simp
next
  case (Implication l r)
  let ?x = "'' ( '' @ spaced (repr l) @ '' -> '' @ spaced (repr r) @ '' ) '' @ k"
  have sp: "spaced (repr (Implication l r)) @ k = ?x"
    by (simp add: spaced_append spaced_Cons)
  have "lex (dropWhile py_isspace_char ?x) = lex ?x"
    by (rule lex_dropWhile) (rule cont_ok_seps)
  also have "\<dots> = ''('' # tokens_of l @ ''->'' # tokens_of r @ '')'' # lex k"
    using Implication by (intro lex_binary) (simp_all add: sep_matches_n)
  finally show ?case using sp by simp
qed simp_all

lemma tokens_of_last:
  "connectives_only f \<Longrightarrow> tokens_of f \<noteq> [] \<and> last (tokens_of f) = '')''"
  by (cases f) auto

lemma close_paren_legal: "legal_token '')'' \<and> \<not> unmatched_piece '')''"
  by (simp add: legal_token_def unmatched_piece_def starts_token_def)

lemma lex_empty: "lex [] = []"
  by (simp add: lex_def)

lemma leading_rendering:
  assumes "stable_formula f"
  shows "lex (dropWhile py_isspace_char (spaced (repr f))) = lex (spaced (repr f))"
proof (cases f)
  case (Predicate name terms)
  then have sn: "stable_name name" using assms by simp
  have "\<exists>y. spaced (repr f) = name @ y"
    using Predicate stable_name_plain [OF sn] by (simp add: spaced_append)
  then show ?thesis
    using dropWhile_head [of name py_isspace_char] sn by (auto simp: stable_name_def)
next
  case (Conjunction l r)
  have "cont_ok (spaced (repr f))"
    unfolding Conjunction using cont_ok_seps(1) by (simp add: spaced_append spaced_Cons)
  then show ?thesis by (rule lex_dropWhile)
next
  case (Disjunction l r)
  have "cont_ok (spaced (repr f))"
    unfolding Disjunction using cont_ok_seps(1) by (simp add: spaced_append spaced_Cons)
  then show ?thesis by (rule lex_dropWhile)
next
  case (Implication l r)
  have "cont_ok (spaced (repr f))"
    unfolding Implication using cont_ok_seps(1) by (simp add: spaced_append spaced_Cons)
  then show ?thesis by (rule lex_dropWhile)
qed (use assms in simp_all)

text \<open>
  C1, as stated, fails. \<open>__repr__\<close> puts the operand of a negation and the body of a
  quantifier in parentheses, and \<open>parse_formula\<close> reads an opening parenthesis as the
  start of a binary form: after the operand it takes the closing parenthesis for the
  operator and fails on what follows. So \<open>~P(x)\<close> and \<open>forall x. P(x)\<close> parse, and their
  renderings \<open>~(P(x))\<close> and \<open>forall x. (P(x))\<close> do not.
\<close>

theorem render_reparse_counterexample:
  "parse_text ''~P(x)'' = (Inr (Negation (Predicate ''P'' [Variable ''x''])), 5)
   \<and> repr (Negation (Predicate ''P'' [Variable ''x''])) = ''~(P(x))''
   \<and> parse_text ''~(P(x))'' = (Inl (ParseError ''Unexpected token for a formula: None''), 7)
   \<and> parse_text ''forall x. P(x)'' =
        (Inr (Forall (Variable ''x'') (Predicate ''P'' [Variable ''x''])), 7)
   \<and> repr (Forall (Variable ''x'') (Predicate ''P'' [Variable ''x''])) = ''forall x. (P(x))''
   \<and> parse_text ''forall x. (P(x))'' =
        (Inl (ParseError ''Unexpected token for a formula: None''), 9)"
  by code_simp

text \<open>
  C1, amended. For every text on which \<open>parse\<close> succeeds with a formula built from
  predicates and the binary connectives only, tokenizing and parsing the canonical
  rendering of that formula succeeds as well and returns the same formula: the
  rendering has the very tokens of the text.
\<close>

theorem render_round_trip:
  assumes ok: "parse_text text = (Inr f, p)" and co: "connectives_only f"
  shows "parse_text (repr f) = (Inr f, p)"
proof -
  let ?ts = "tokenize text"
  from ok have pf: "parse_formula ?ts 0 = (Inr f, p)" and "\<not> p < length ?ts"
    by (auto simp: parse_text_def parse_def split: prod.splits sum.splits if_splits)
  then have p: "p = length ?ts" using parse_formula_advances [OF pf] by simp
  have ts: "?ts = tokens_of f" using parse_formula_tokens [OF pf] p by simp
  have "?ts \<noteq> []" "last ?ts = '')''" using tokens_of_last [OF co] ts by simp_all
  then have cl: "\<forall>t \<in> set ?ts. legal_token t \<or> closed_piece t"
    using tokenize_closed [of "text"] close_paren_legal by simp
  have sf: "stable_formula f" using parse_formula_stable [OF pf cl co] .
  have "tokenize (repr f) = lex (spaced (repr f))" by (rule tokenize_lex)
  also have "\<dots> = lex (dropWhile py_isspace_char (spaced (repr f) @ []))"
    using leading_rendering [OF sf] by simp
  also have "\<dots> = tokens_of f @ lex []"
    by (rule lex_rendering [OF sf]) (simp add: cont_ok_def)
  finally have "tokenize (repr f) = ?ts" using ts lex_empty by simp
  then show ?thesis using ok by (simp add: parse_text_def)
qed

theorem render_round_trip_witness:
  "parse_text ''( P(x,A)->(Q()|R(y)) )'' =
     (Inr (Implication (Predicate ''P'' [Variable ''x'', Constant ''A''])
             (Disjunction (Predicate ''Q'' []) (Predicate ''R'' [Variable ''y'']))), 19)
   \<and> connectives_only (Implication (Predicate ''P'' [Variable ''x'', Constant ''A''])
             (Disjunction (Predicate ''Q'' []) (Predicate ''R'' [Variable ''y''])))
   \<and> repr (Implication (Predicate ''P'' [Variable ''x'', Constant ''A''])
             (Disjunction (Predicate ''Q'' []) (Predicate ''R'' [Variable ''y''])))
       = ''(P(x, A) -> (Q() | R(y)))''
   \<and> parse_text ''(P(x, A) -> (Q() | R(y)))'' =
     (Inr (Implication (Predicate ''P'' [Variable ''x'', Constant ''A''])
             (Disjunction (Predicate ''Q'' []) (Predicate ''R'' [Variable ''y'']))), 19)"
proof -
  let ?f = "Implication (Predicate ''P'' [Variable ''x'', Constant ''A''])
             (Disjunction (Predicate ''Q'' []) (Predicate ''R'' [Variable ''y'']))"
  have e: "parse_text ''( P(x,A)->(Q()|R(y)) )'' = (Inr ?f, 19)" by code_simp
  have c: "connectives_only ?f" by simp
  have r: "repr ?f = ''(P(x, A) -> (Q() | R(y)))''" by simp
  from render_round_trip [OF e c] r e c show ?thesis by simp
qed

end
